theory Spec2Isabelle
  imports Complex_Main "HOL-Library.Sublist"
begin

section \<open>JavaScript numbers\<close>

text \<open>
  The tools compute on JavaScript numbers. A number is modelled as a finite real, one of
  the two infinities, or NaN. The operations of this section are the exact ones on finite
  values; the rounding and the overflow of IEEE doubles are added in the section on
  doubles below. The special values follow IEEE 754:
  NaN is absorbing, \<open>Infinity - Infinity\<close>, \<open>0 * Infinity\<close>, \<open>0 / 0\<close> and
  \<open>Infinity / Infinity\<close> are NaN, and every comparison with NaN is false. The two zeros
  are identified; the only operation that tells them apart is a division by zero, and
  every divisor in the modelled code is an integer expression, which is never \<open>-0\<close>.
\<close>

datatype jsnum = Fin real | PInf | NInf | NaN

fun js_neg :: "jsnum \<Rightarrow> jsnum" where
  "js_neg (Fin a) = Fin (- a)"
| "js_neg PInf = NInf"
| "js_neg NInf = PInf"
| "js_neg NaN = NaN"

fun js_add :: "jsnum \<Rightarrow> jsnum \<Rightarrow> jsnum" where
  "js_add NaN _ = NaN"
| "js_add _ NaN = NaN"
| "js_add (Fin a) (Fin b) = Fin (a + b)"
| "js_add (Fin a) PInf = PInf"
| "js_add (Fin a) NInf = NInf"
| "js_add PInf NInf = NaN"
| "js_add PInf _ = PInf"
| "js_add NInf PInf = NaN"
| "js_add NInf _ = NInf"

definition js_sub :: "jsnum \<Rightarrow> jsnum \<Rightarrow> jsnum" where
  "js_sub a b = js_add a (js_neg b)"

text \<open>An infinity with the sign of a finite factor; zero times infinity is NaN.\<close>

definition signed_inf :: "real \<Rightarrow> jsnum" where
  "signed_inf a = (if a = 0 then NaN else if 0 < a then PInf else NInf)"

fun js_mul :: "jsnum \<Rightarrow> jsnum \<Rightarrow> jsnum" where
  "js_mul NaN _ = NaN"
| "js_mul _ NaN = NaN"
| "js_mul (Fin a) (Fin b) = Fin (a * b)"
| "js_mul (Fin a) PInf = signed_inf a"
| "js_mul (Fin a) NInf = signed_inf (- a)"
| "js_mul PInf (Fin b) = signed_inf b"
| "js_mul NInf (Fin b) = signed_inf (- b)"
| "js_mul PInf PInf = PInf"
| "js_mul PInf NInf = NInf"
| "js_mul NInf PInf = NInf"
| "js_mul NInf NInf = PInf"

fun js_div :: "jsnum \<Rightarrow> jsnum \<Rightarrow> jsnum" where
  "js_div NaN _ = NaN"
| "js_div _ NaN = NaN"
| "js_div (Fin a) (Fin b) = (if b = 0 then signed_inf a else Fin (a / b))"
| "js_div (Fin a) _ = Fin 0"
| "js_div PInf (Fin b) = (if 0 \<le> b then PInf else NInf)"
| "js_div NInf (Fin b) = (if 0 \<le> b then NInf else PInf)"
| "js_div _ _ = NaN"

fun js_lt :: "jsnum \<Rightarrow> jsnum \<Rightarrow> bool" where
  "js_lt NaN _ = False"
| "js_lt _ NaN = False"
| "js_lt (Fin a) (Fin b) = (a < b)"
| "js_lt (Fin a) PInf = True"
| "js_lt (Fin a) NInf = False"
| "js_lt PInf _ = False"
| "js_lt NInf NInf = False"
| "js_lt NInf _ = True"

definition js_gt :: "jsnum \<Rightarrow> jsnum \<Rightarrow> bool" where
  "js_gt a b = js_lt b a"

text \<open>\<open>a <= b\<close> in JavaScript: false when either side is NaN, otherwise not \<open>b < a\<close>.\<close>

definition js_le :: "jsnum \<Rightarrow> jsnum \<Rightarrow> bool" where
  "js_le a b = (a \<noteq> NaN \<and> b \<noteq> NaN \<and> \<not> js_lt b a)"

definition is_finite :: "jsnum \<Rightarrow> bool" where
  "is_finite x = (case x of Fin _ \<Rightarrow> True | _ \<Rightarrow> False)"

text \<open>An integer as a number.\<close>

definition js_int :: "int \<Rightarrow> jsnum" where
  "js_int k = Fin (of_int k)"

text \<open>
  \<open>ToNumber\<close> on the result of a property read: a missing property reads as \<open>undefined\<close>,
  which arithmetic and comparisons turn into NaN.
\<close>

definition to_number :: "jsnum option \<Rightarrow> jsnum" where
  "to_number v = (case v of None \<Rightarrow> NaN | Some x \<Rightarrow> x)"

section \<open>Arrays\<close>

text \<open>
  The array \<open>ema\<close> of \<open>calculateEMA\<close> is written by index, starting from the empty
  array. A JavaScript array is an object: its elements are properties keyed by integers,
  a key that was never written is absent (a hole), and \<open>length\<close> is one more than the
  largest index written. A write to a negative key sets a property and leaves
  \<open>length\<close> alone. The array indices of JavaScript end at \<open>2^32 - 2\<close>: a key of
  \<open>2^32 - 1\<close> or more is a plain property too, and \<open>arr_set\<close> is the write for the
  keys below that bound only. Every index below the length of an input array is below
  it, since no array is longer than \<open>2^32 - 1\<close>; where a statement on \<open>length\<close> rests
  on a key that the period alone decides, the period is taken below \<open>2^32\<close>.
\<close>

record js_array =
  arr_length :: nat
  elems :: "int \<Rightarrow> jsnum option"

definition arr_empty :: js_array where
  "arr_empty = \<lparr>arr_length = 0, elems = (\<lambda>_. None)\<rparr>"

definition arr_set :: "js_array \<Rightarrow> int \<Rightarrow> jsnum \<Rightarrow> js_array" where
  "arr_set a k v =
     \<lparr>arr_length = (if 0 \<le> k \<and> arr_length a \<le> nat k then nat k + 1 else arr_length a),
      elems = (elems a)(k \<mapsto> v)\<rparr>"

definition arr_get :: "js_array \<Rightarrow> int \<Rightarrow> jsnum option" where
  "arr_get a k = elems a k"

text \<open>A read of the dense input array \<open>prices\<close>: out of range it is \<open>undefined\<close>.\<close>

definition list_get :: "jsnum list \<Rightarrow> int \<Rightarrow> jsnum option" where
  "list_get xs k = (if 0 \<le> k \<and> k < int (length xs) then Some (xs ! nat k) else None)"

section \<open>The EMA engine: \<open>calculateEMA\<close>\<close>

text \<open>
  The parameter \<open>period\<close> is an integer, of either sign (the only call passes 50); the
  loop counters are integers too, so that a negative index reads \<open>undefined\<close> from
  \<open>prices\<close> and writes a property of \<open>ema\<close>, as in the source.
\<close>

text \<open>
  \<^verbatim>\<open>for (let i = 0; i < Math.min(period, prices.length); i++) { sum += prices[i]; }\<close>
  with \<open>n\<close> the bound \<open>Math.min(period, prices.length)\<close> and \<open>sumv\<close> the variable \<open>sum\<close>.
\<close>

function sum_loop :: "jsnum list \<Rightarrow> int \<Rightarrow> int \<Rightarrow> jsnum \<Rightarrow> jsnum" where
  "sum_loop prices n i sumv =
     (if i < n then sum_loop prices n (i + 1) (js_add sumv (to_number (list_get prices i)))
      else sumv)"
  by pat_completeness auto
termination
  by (relation "measure (\<lambda>(prices, n, i, sumv). nat (n - i))") auto

declare sum_loop.simps [simp del]

text \<open>
  \<^verbatim>\<open>for (let i = period; i < prices.length; i++) {
    ema[i] = (prices[i] - ema[i - 1]) * multiplier + ema[i - 1]; }\<close>
\<close>

definition ema_step :: "jsnum \<Rightarrow> jsnum \<Rightarrow> jsnum \<Rightarrow> jsnum" where
  "ema_step multiplier price prev = js_add (js_mul (js_sub price prev) multiplier) prev"

function ema_loop :: "jsnum list \<Rightarrow> jsnum \<Rightarrow> int \<Rightarrow> js_array \<Rightarrow> js_array" where
  "ema_loop prices multiplier i ema =
     (if i < int (length prices)
      then ema_loop prices multiplier (i + 1)
             (arr_set ema i
                (ema_step multiplier (to_number (list_get prices i))
                   (to_number (arr_get ema (i - 1)))))
      else ema)"
  by pat_completeness auto
termination
  by (relation "measure (\<lambda>(prices, multiplier, i, ema). nat (int (length prices) - i))") auto

declare ema_loop.simps [simp del]

definition calculateEMA :: "jsnum list \<Rightarrow> int \<Rightarrow> js_array" where
  "calculateEMA prices period =
     (let ema = arr_empty;
          multiplier = js_div (Fin 2) (js_int (period + 1));
          n = min period (int (length prices));
          sumv = sum_loop prices n 0 (Fin 0);
          ema = arr_set ema (period - 1) (js_div sumv (js_int n))
      in ema_loop prices multiplier period ema)"

text \<open>
  The reference the engine is compared with: the sum of a series taken from the left,
  starting from zero, and the arithmetic mean as that sum over the number of entries.
\<close>

definition js_sum :: "jsnum list \<Rightarrow> jsnum" where
  "js_sum xs = foldl js_add (Fin 0) xs"


text \<open>\<open>x\<close> lies between \<open>a\<close> and \<open>b\<close>, inclusive, in either order.\<close>

definition js_between :: "jsnum \<Rightarrow> jsnum \<Rightarrow> jsnum \<Rightarrow> bool" where
  "js_between x a b = ((js_le a x \<and> js_le x b) \<or> (js_le b x \<and> js_le x a))"

section \<open>Doubles\<close>

text \<open>
  A JavaScript number is a double (IEEE 754 binary64), and every arithmetic operation
  returns the double nearest to its exact result, the one with the even significand on a
  tie, or an infinity when that double would be \<open>2^1024\<close> or more in magnitude. The
  doubles are the multiples \<open>n * 2^(k-52)\<close> of a power of two with \<open>\<bar>n\<bar> < 2^53\<close> and
  \<open>-1022 \<le> k \<le> 1023\<close>. For a real \<open>x\<close>, \<open>expo x\<close> is the exponent \<open>k\<close> of its binade,
  \<open>2^k \<le> \<bar>x\<bar> < 2^(k+1)\<close>, and \<open>-1022\<close> below the normal range; \<open>quantum x\<close> is the
  spacing of the doubles there; \<open>round_real\<close> rounds to the nearest multiple of the
  quantum, with the exponent unbounded above, and \<open>round64\<close> adds the overflow.
\<close>

definition expo :: "real \<Rightarrow> int" where
  "expo x = (if x = 0 then - 1022 else max \<lfloor>log 2 \<bar>x\<bar>\<rfloor> (- 1022))"

definition quantum :: "real \<Rightarrow> real" where
  "quantum x = 2 powi (expo x - 52)"

definition round_even :: "real \<Rightarrow> int" where
  "round_even t =
     (let n = \<lfloor>t\<rfloor>; f = t - of_int n
      in if f < 1 / 2 then n else if 1 / 2 < f then n + 1 else if even n then n else n + 1)"

definition round_real :: "real \<Rightarrow> real" where
  "round_real x = of_int (round_even (x / quantum x)) * quantum x"

definition overflow :: real where
  "overflow = 2 ^ 1024"

definition round64 :: "real \<Rightarrow> jsnum" where
  "round64 x =
     (let y = round_real x
      in if overflow \<le> y then PInf else if y \<le> - overflow then NInf else Fin y)"

text \<open>
  An operation on doubles is the exact operation followed by the rounding \<open>rnd\<close> of a
  finite result; the infinities and NaN that the exact tables give stay as they are.
\<close>

definition rounded :: "(real \<Rightarrow> jsnum) \<Rightarrow> jsnum \<Rightarrow> jsnum" where
  "rounded rnd x = (case x of Fin v \<Rightarrow> rnd v | _ \<Rightarrow> x)"

text \<open>
  \<open>calculateEMA\<close> once more, every operation rounded by \<open>rnd\<close>: the same two loops and
  the same writes. With \<open>round64\<close> for \<open>rnd\<close> this is the function on doubles; with no
  rounding, \<open>Fin\<close> for \<open>rnd\<close>, it is \<open>calculateEMA\<close> above. (The integers \<open>period + 1\<close> and
  \<open>Math.min(period, prices.length)\<close> are doubles as they are, being below \<open>2^53\<close> in
  magnitude.)
\<close>

function sum_loop_rounded ::
  "(real \<Rightarrow> jsnum) \<Rightarrow> jsnum list \<Rightarrow> int \<Rightarrow> int \<Rightarrow> jsnum \<Rightarrow> jsnum" where
  "sum_loop_rounded rnd prices n i sumv =
     (if i < n
      then sum_loop_rounded rnd prices n (i + 1)
             (rounded rnd (js_add sumv (to_number (list_get prices i))))
      else sumv)"
  by pat_completeness auto
termination
  by (relation "measure (\<lambda>(rnd, prices, n, i, sumv). nat (n - i))") auto

declare sum_loop_rounded.simps [simp del]

definition ema_step_rounded :: "(real \<Rightarrow> jsnum) \<Rightarrow> jsnum \<Rightarrow> jsnum \<Rightarrow> jsnum \<Rightarrow> jsnum" where
  "ema_step_rounded rnd multiplier price prev =
     rounded rnd (js_add (rounded rnd (js_mul (rounded rnd (js_sub price prev)) multiplier))
                    prev)"

function ema_loop_rounded ::
  "(real \<Rightarrow> jsnum) \<Rightarrow> jsnum list \<Rightarrow> jsnum \<Rightarrow> int \<Rightarrow> js_array \<Rightarrow> js_array" where
  "ema_loop_rounded rnd prices multiplier i ema =
     (if i < int (length prices)
      then ema_loop_rounded rnd prices multiplier (i + 1)
             (arr_set ema i
                (ema_step_rounded rnd multiplier (to_number (list_get prices i))
                   (to_number (arr_get ema (i - 1)))))
      else ema)"
  by pat_completeness auto
termination
  by (relation "measure (\<lambda>(rnd, prices, multiplier, i, ema). nat (int (length prices) - i))")
    auto

declare ema_loop_rounded.simps [simp del]

definition calculateEMA_rounded :: "(real \<Rightarrow> jsnum) \<Rightarrow> jsnum list \<Rightarrow> int \<Rightarrow> js_array" where
  "calculateEMA_rounded rnd prices period =
     (let ema = arr_empty;
          multiplier = rounded rnd (js_div (Fin 2) (js_int (period + 1)));
          n = min period (int (length prices));
          sumv = sum_loop_rounded rnd prices n 0 (Fin 0);
          ema = arr_set ema (period - 1) (rounded rnd (js_div sumv (js_int n)))
      in ema_loop_rounded rnd prices multiplier period ema)"

text \<open>The largest double.\<close>

definition max_double :: real where
  "max_double = 2 ^ 1024 - 2 ^ 971"

section \<open>The data provider: \<open>fetchStockFromYahoo\<close> and \<open>fetchHistoricalPrices\<close>\<close>

record StockData =
  symbol :: string
  name :: string
  exchange :: string
  open_price :: jsnum
  high :: jsnum
  low :: jsnum
  close :: jsnum
  volume :: jsnum
  date :: string

record StockWithEMA = StockData +
  ema50 :: jsnum
  qualifies :: bool

text \<open>
  The HTTP request and the decoding of its JSON body are the environment. A request
  either throws inside the \<^verbatim>\<open>try\<close> block (the fetch rejects, the body is not JSON, a
  property of \<open>undefined\<close> is read), or makes the function return early (\<open>!response.ok\<close>,
  or no \<open>result\<close>, \<open>indicators\<close> or \<open>quote[0]\<close>), or yields the decoded chart. In the
  quote arrays \<open>None\<close> is a \<open>null\<close> entry. \<open>date_of_last\<close> is the host's rendering
  \<^verbatim>\<open>new Date(timestamps[lastIndex] * 1000).toISOString().split('T')[0]\<close>, which throws
  on an invalid time. The environment has a state \<open>'w\<close> that every request may change.
\<close>

datatype js_error = NetworkError | SyntaxError | TypeError | RangeError

record chart_result =
  longName :: "string option"
  shortName :: "string option"
  quote_open :: "jsnum option list"
  quote_high :: "jsnum option list"
  quote_low :: "jsnum option list"
  quote_close :: "jsnum option list"
  quote_volume :: "jsnum option list"
  date_of_last :: "js_error + string"

record 'w yahoo =
  latest_chart :: "string \<Rightarrow> 'w \<Rightarrow> (js_error + chart_result option) \<times> 'w"
  history_chart :: "string \<Rightarrow> int \<Rightarrow> 'w \<Rightarrow> (js_error + chart_result option) \<times> 'w"

text \<open>\<open>s.includes(pat)\<close>.\<close>

fun str_includes :: "string \<Rightarrow> string \<Rightarrow> bool" where
  "str_includes [] pat = (pat = [])"
| "str_includes (c # cs) pat = (prefix pat (c # cs) \<or> str_includes cs pat)"

text \<open>\<open>a || b\<close> on strings: the empty string and \<open>undefined\<close> are falsy.\<close>

definition or_else :: "string option \<Rightarrow> string option \<Rightarrow> string option" where
  "or_else a b = (case a of None \<Rightarrow> b | Some s \<Rightarrow> if s = [] then b else Some s)"

text \<open>
  \<open>xs[k] || 0\<close> on a quote array: \<open>undefined\<close> (out of range), \<open>null\<close>, zero and NaN
  are falsy.
\<close>

definition quote_get :: "jsnum option list \<Rightarrow> int \<Rightarrow> jsnum option" where
  "quote_get xs k = (if 0 \<le> k \<and> k < int (length xs) then xs ! nat k else None)"

definition or_zero :: "jsnum option \<Rightarrow> jsnum" where
  "or_zero v = (case v of None \<Rightarrow> Fin 0 | Some NaN \<Rightarrow> Fin 0 | Some x \<Rightarrow> x)"

definition yahoo_symbol :: "string \<Rightarrow> string" where
  "yahoo_symbol symb = (if str_includes symb ''.'' then symb else symb @ ''.NS'')"

definition fetchStockFromYahoo :: "'w yahoo \<Rightarrow> string \<Rightarrow> 'w \<Rightarrow> StockData option \<times> 'w" where
  "fetchStockFromYahoo Y symb w =
     (case latest_chart Y (yahoo_symbol symb) w of
        (Inl error, w') \<Rightarrow> (None, w')
      | (Inr None, w') \<Rightarrow> (None, w')
      | (Inr (Some result), w') \<Rightarrow>
          (let lastIndex = int (length (quote_close result)) - 1 in
           case date_of_last result of
             Inl error \<Rightarrow> (None, w')
           | Inr d \<Rightarrow>
               (Some \<lparr>symbol = symb,
                      name = (case or_else (or_else (longName result) (shortName result))
                                     (Some symb) of
                                None \<Rightarrow> symb | Some s \<Rightarrow> s),
                      exchange = (if str_includes symb ''.BO'' then ''BSE'' else ''NSE''),
                      open_price = or_zero (quote_get (quote_open result) lastIndex),
                      high = or_zero (quote_get (quote_high result) lastIndex),
                      low = or_zero (quote_get (quote_low result) lastIndex),
                      close = or_zero (quote_get (quote_close result) lastIndex),
                      volume = or_zero (quote_get (quote_volume result) lastIndex),
                      date = d\<rparr>, w')))"

definition fetchHistoricalPrices ::
  "'w yahoo \<Rightarrow> string \<Rightarrow> int \<Rightarrow> 'w \<Rightarrow> jsnum list \<times> 'w" where
  "fetchHistoricalPrices Y symb days w =
     (case history_chart Y (yahoo_symbol symb) days w of
        (Inl error, w') \<Rightarrow> ([], w')
      | (Inr None, w') \<Rightarrow> ([], w')
      | (Inr (Some result), w') \<Rightarrow>
          (map the (filter (\<lambda>price. price \<noteq> None) (quote_close result)), w'))"

section \<open>The batch: \<open>fetchStockDataTool.execute\<close>\<close>

text \<open>
  Lines 172 to 183 of the loop body: the EMA of the history, its last entry, the rule,
  and the record that is pushed.
\<close>

definition current_ema :: "jsnum list \<Rightarrow> jsnum" where
  "current_ema historicalPrices =
     (let emaValues = calculateEMA historicalPrices 50
      in to_number (arr_get emaValues (int (arr_length emaValues) - 1)))"

definition qualify :: "StockData \<Rightarrow> jsnum \<Rightarrow> StockWithEMA" where
  "qualify stockData currentEMA50 =
     StockData.extend stockData
       (StockWithEMA.fields currentEMA50
          (js_lt (low stockData) currentEMA50 \<and> js_gt (close stockData) currentEMA50))"

text \<open>
  One pass of the loop body for the symbol \<open>symb\<close> (the loop variable \<open>symbol\<close>, a name
  the record field takes), on the accumulators \<open>stocksWithEMA\<close> and \<open>processedCount\<close>.
  A \<^verbatim>\<open>continue\<close> leaves the accumulators as they are. Logging and the pause of 200 ms
  after a processed symbol have no effect on the result and are left out.
\<close>

fun loop_body ::
  "'w yahoo \<Rightarrow> string \<Rightarrow> StockWithEMA list \<times> nat \<Rightarrow> 'w
   \<Rightarrow> (StockWithEMA list \<times> nat) \<times> 'w" where
  "loop_body Y symb (stocksWithEMA, processedCount) w =
     (case fetchStockFromYahoo Y symb w of
        (None, w1) \<Rightarrow> ((stocksWithEMA, processedCount), w1)
      | (Some stockData, w1) \<Rightarrow>
          (case fetchHistoricalPrices Y symb 100 w1 of
             (historicalPrices, w2) \<Rightarrow>
               if length historicalPrices < 50
               then ((stocksWithEMA, processedCount), w2)
               else ((stocksWithEMA @ [qualify stockData (current_ema historicalPrices)],
                      processedCount + 1), w2)))"

text \<open>\<^verbatim>\<open>for (const symbol of symbols) { ... }\<close>\<close>

fun execute_loop ::
  "'w yahoo \<Rightarrow> string list \<Rightarrow> StockWithEMA list \<times> nat \<Rightarrow> 'w
   \<Rightarrow> (StockWithEMA list \<times> nat) \<times> 'w" where
  "execute_loop Y [] acc w = (acc, w)"
| "execute_loop Y (symb # rest) acc w =
     (case loop_body Y symb acc w of (acc', w') \<Rightarrow> execute_loop Y rest acc' w')"

record report =
  totalStocks :: nat
  qualifyingStocks :: nat
  stocks :: "StockWithEMA list"

definition execute :: "'w yahoo \<Rightarrow> string list \<Rightarrow> 'w \<Rightarrow> report \<times> 'w" where
  "execute Y symbols w =
     (case execute_loop Y symbols ([], 0) w of
        ((stocksWithEMA, processedCount), w') \<Rightarrow>
          (let qualifyingStocks = filter qualifies stocksWithEMA
           in (\<lparr>totalStocks = length stocksWithEMA,
                qualifyingStocks = length qualifyingStocks,
                stocks = stocksWithEMA\<rparr>, w')))"


section \<open>The report serialiser: \<open>generateCSV\<close>\<close>

text \<open>
  \<open>Number.prototype.toFixed(2)\<close> and \<open>Number.prototype.toString()\<close> belong to the
  host, not to the repository: the serialiser takes them as parameters. A string is a
  list of characters; the separator, the double quote and the line break are single
  characters in it, as they are single code units in a JavaScript string.
\<close>

record number_format =
  toFixed2 :: "jsnum \<Rightarrow> string"
  toString :: "jsnum \<Rightarrow> string"

definition headers :: "string list" where
  "headers = [''Symbol'', ''Name'', ''Exchange'', ''Date'', ''Open'', ''High'', ''Low'',
              ''Close'', ''Volume'', ''50_EMA'', ''Low_vs_EMA'', ''Close_vs_EMA'',
              ''Qualifies'']"

text \<open>\<open>xs.join(sep)\<close> on an array of strings.\<close>

fun join :: "string \<Rightarrow> string list \<Rightarrow> string" where
  "join sep [] = []"
| "join sep [x] = x"
| "join sep (x # y # ys) = x @ sep @ join sep (y # ys)"

definition dquote :: char where
  "dquote = CHR 0x22"

definition newline :: char where
  "newline = CHR 0x0A"

definition comma :: char where
  "comma = CHR '',''"

text \<open>The array \<open>row\<close> built for one stock (lines 41 to 55).\<close>

definition csv_row :: "number_format \<Rightarrow> StockWithEMA \<Rightarrow> string list" where
  "csv_row F stock =
     [symbol stock,
      [dquote] @ name stock @ [dquote],
      exchange stock,
      date stock,
      toFixed2 F (open_price stock),
      toFixed2 F (high stock),
      toFixed2 F (low stock),
      toFixed2 F (close stock),
      toString F (volume stock),
      toFixed2 F (ema50 stock),
      (if js_lt (low stock) (ema50 stock) then ''Below'' else ''Above''),
      (if js_gt (close stock) (ema50 stock) then ''Above'' else ''Below''),
      (if qualifies stock then ''YES'' else ''NO'')]"

text \<open>
  The array \<open>csvRows\<close> when the \<open>forEach\<close> is done: it starts as the header line, and
  each qualifying stock pushes its joined row. (\<open>stks\<close> is the parameter \<open>stocks\<close>, a
  name the report's field takes.)
\<close>

definition csv_rows :: "number_format \<Rightarrow> StockWithEMA list \<Rightarrow> string list" where
  "csv_rows F stks =
     (let csvRows = [join [comma] headers];
          qualifyingStocks = filter qualifies stks
      in foldl (\<lambda>csvRows stock. csvRows @ [join [comma] (csv_row F stock)])
           csvRows qualifyingStocks)"

definition generateCSV :: "number_format \<Rightarrow> StockWithEMA list \<Rightarrow> string" where
  "generateCSV F stks = join [newline] (csv_rows F stks)"

section \<open>Reading the table back\<close>

text \<open>
  The round trip of the specification needs a reader of the serialised table ("parsing
  it back"). The repository has none, so the serialiser is compared with this one, a
  second definition written after the specification's words and the usual reading of
  comma-separated text. The text is split into lines; the first must be the
  header line; every other line is split into fields at the separator, where a field
  that opens with a double quote runs to the next double quote (separators inside it
  belong to the field, and the quotes are dropped) and must be followed by a separator
  or the end of the line. A row must have as many fields as the header.
\<close>

fun split_on :: "char \<Rightarrow> string \<Rightarrow> string list" where
  "split_on c [] = [[]]"
| "split_on c (x # xs) =
     (if x = c then [] # split_on c xs
      else (case split_on c xs of [] \<Rightarrow> [[x]] | l # ls \<Rightarrow> (x # l) # ls))"

datatype field_state = FieldStart | Unquoted | Quoted | AfterQuote

fun scan_fields :: "field_state \<Rightarrow> string \<Rightarrow> string \<Rightarrow> string list option" where
  "scan_fields FieldStart acc [] = Some [[]]"
| "scan_fields FieldStart acc (c # cs) =
     (if c = dquote then scan_fields Quoted [] cs
      else if c = comma then map_option (Cons []) (scan_fields FieldStart [] cs)
      else scan_fields Unquoted [c] cs)"
| "scan_fields Unquoted acc [] = Some [acc]"
| "scan_fields Unquoted acc (c # cs) =
     (if c = comma then map_option (Cons acc) (scan_fields FieldStart [] cs)
      else scan_fields Unquoted (acc @ [c]) cs)"
| "scan_fields Quoted acc [] = None"
| "scan_fields Quoted acc (c # cs) =
     (if c = dquote then scan_fields AfterQuote acc cs
      else scan_fields Quoted (acc @ [c]) cs)"
| "scan_fields AfterQuote acc [] = Some [acc]"
| "scan_fields AfterQuote acc (c # cs) =
     (if c = comma then map_option (Cons acc) (scan_fields FieldStart [] cs) else None)"

definition parse_row :: "string \<Rightarrow> string list option" where
  "parse_row line =
     (case scan_fields FieldStart [] line of
        None \<Rightarrow> None
      | Some cells \<Rightarrow> if length cells = length headers then Some cells else None)"

fun parse_rows :: "string list \<Rightarrow> string list list option" where
  "parse_rows [] = Some []"
| "parse_rows (line # lines) =
     (case parse_row line of
        None \<Rightarrow> None
      | Some cells \<Rightarrow> map_option (Cons cells) (parse_rows lines))"

definition parse_table :: "string \<Rightarrow> string list list option" where
  "parse_table text =
     (case split_on newline text of
        [] \<Rightarrow> None
      | header # lines \<Rightarrow>
          if header = join [comma] headers then parse_rows lines else None)"

text \<open>
  What a reader is expected to get back for one stock: the row's cells, the name
  without its quotes, the numbers as rounded by the serialiser.
\<close>

definition row_values :: "number_format \<Rightarrow> StockWithEMA \<Rightarrow> string list" where
  "row_values F stock = (csv_row F stock)[1 := name stock]"

text \<open>The characters that a field must not hold for a given reading.\<close>

definition plain :: "string \<Rightarrow> bool" where
  "plain s = (comma \<notin> set s \<and> dquote \<notin> set s \<and> newline \<notin> set s)"

definition quotable :: "string \<Rightarrow> bool" where
  "quotable s = (dquote \<notin> set s \<and> newline \<notin> set s)"

section \<open>A test double of the environment\<close>

text \<open>
  A provider for the examples below, after the end-to-end scenario of the specification.
  Its state counts the requests made. \<open>A\<close>, \<open>B\<close>, \<open>D\<close> and \<open>E\<close> have a latest bar
  with the given low and close; \<open>A\<close>, \<open>B\<close> and \<open>E\<close> have a history of 60 closes at
  10, \<open>D\<close> one of 30; the request for \<open>C\<close> throws; any other symbol has no data.
\<close>

definition example_bar :: "real \<Rightarrow> real \<Rightarrow> chart_result" where
  "example_bar l c =
     \<lparr>longName = Some ''Example Ltd'', shortName = None,
      quote_open = [Some (Fin l)], quote_high = [Some (Fin c)],
      quote_low = [Some (Fin l)], quote_close = [Some (Fin c)],
      quote_volume = [Some (Fin 1000)], date_of_last = Inr ''2025-09-10''\<rparr>"

definition example_history :: "nat \<Rightarrow> chart_result" where
  "example_history n =
     \<lparr>longName = None, shortName = None,
      quote_open = [], quote_high = [], quote_low = [],
      quote_close = replicate n (Some (Fin 10)),
      quote_volume = [], date_of_last = Inr ''2025-09-10''\<rparr>"

definition example_yahoo :: "nat yahoo" where
  "example_yahoo =
     \<lparr>latest_chart = (\<lambda>s w.
        (if s = ''A.NS'' then Inr (Some (example_bar 9 11))
         else if s = ''B.NS'' then Inr (Some (example_bar 10 11))
         else if s = ''C.NS'' then Inl NetworkError
         else if s = ''D.NS'' then Inr (Some (example_bar 9 11))
         else if s = ''E.NS'' then Inr (Some (example_bar 8 12))
         else Inr None, w + 1)),
      history_chart = (\<lambda>s days w.
        (if s = ''A.NS'' \<or> s = ''B.NS'' \<or> s = ''E.NS''
         then Inr (Some (example_history 60))
         else if s = ''D.NS'' then Inr (Some (example_history 30))
         else Inr None, w + 1))\<rparr>"

text \<open>
  A number format for the examples: \<open>toFixed(2)\<close> as ECMAScript defines it for magnitudes
  below \<open>10^21\<close> (the nearest multiple of a hundredth, the larger one on a tie, printed
  with two decimals) and \<open>toString()\<close> as it prints integers below \<open>10^21\<close>. Elsewhere
  the host prints an exponent or a fraction, which the examples do not use.
\<close>

definition digit :: "nat \<Rightarrow> char" where
  "digit d = ''0123456789'' ! d"

fun show_nat :: "nat \<Rightarrow> string" where
  "show_nat n = (if n < 10 then [digit n] else show_nat (n div 10) @ [digit (n mod 10)])"

declare show_nat.simps [simp del]

definition show_fixed2 :: "real \<Rightarrow> string" where
  "show_fixed2 r =
     (let n = nat \<lfloor>\<bar>r\<bar> * 100 + 1 / 2\<rfloor>
      in (if r < 0 then ''-'' else []) @ show_nat (n div 100) @ ''.''
         @ [digit (n mod 100 div 10), digit (n mod 10)])"

definition example_format :: number_format where
  "example_format =
     \<lparr>toFixed2 = (\<lambda>x. case x of Fin r \<Rightarrow> show_fixed2 r | PInf \<Rightarrow> ''Infinity''
                        | NInf \<Rightarrow> ''-Infinity'' | NaN \<Rightarrow> ''NaN''),
      toString = (\<lambda>x. case x of
                          Fin r \<Rightarrow> (if r < 0 then ''-'' else []) @ show_nat (nat \<lfloor>\<bar>r\<bar>\<rfloor>)
                        | PInf \<Rightarrow> ''Infinity'' | NInf \<Rightarrow> ''-Infinity'' | NaN \<Rightarrow> ''NaN'')\<rparr>"

text \<open>A qualifying record with a given symbol and name.\<close>

definition example_stock :: "string \<Rightarrow> string \<Rightarrow> StockWithEMA" where
  "example_stock s n =
     \<lparr>symbol = s, name = n, exchange = ''NSE'',
      open_price = Fin 9, high = Fin 11, low = Fin 9, close = Fin 11,
      volume = Fin 1000, date = ''2025-09-10'', ema50 = Fin 10, qualifies = True\<rparr>"

section \<open>The loops of \<open>calculateEMA\<close>\<close>

text \<open>The first loop adds up the first \<open>min period length\<close> prices, from the left.\<close>

lemma sum_loop_foldl:
  "0 \<le> i \<Longrightarrow> n \<le> int (length prices) \<Longrightarrow>
   sum_loop prices n i s = foldl js_add s (take (nat (n - i)) (drop (nat i) prices))"
proof (induction prices n i s rule: sum_loop.induct)
  case (1 prices n i s)
  show ?case
  proof (cases "i < n")
    case False
    then show ?thesis by (simp add: sum_loop.simps)
  next
    case True
    with "1.prems" have lt: "nat i < length prices" by linarith
    have n1: "nat (n - i) = Suc (nat (n - (i + 1)))" using True by linarith
    have d: "drop (nat i) prices = prices ! nat i # drop (nat (i + 1)) prices"
      using lt "1.prems" by (simp add: Cons_nth_drop_Suc nat_add_distrib)
    have "i < int (length prices)" using lt by linarith
    then have g: "to_number (list_get prices i) = prices ! nat i"
      using "1.prems" by (simp add: list_get_def to_number_def)
    have "sum_loop prices n i s = sum_loop prices n (i + 1) (js_add s (prices ! nat i))"
      using True g by (subst sum_loop.simps) simp
    also have "\<dots> = foldl js_add (js_add s (prices ! nat i))
                      (take (nat (n - (i + 1))) (drop (nat (i + 1)) prices))"
      using "1.IH" [OF True] "1.prems" g by simp
    finally show ?thesis by (simp add: n1 d)
  qed
qed

lemma sum_loop_take:
  "sum_loop prices (min period (int (length prices))) 0 (Fin 0)
   = js_sum (take (nat period) prices)"
proof -
  have "sum_loop prices (min period (int (length prices))) 0 (Fin 0)
        = foldl js_add (Fin 0) (take (nat (min period (int (length prices)))) prices)"
    using sum_loop_foldl [of 0 "min period (int (length prices))" prices "Fin 0"] by simp
  also have "take (nat (min period (int (length prices)))) prices = take (nat period) prices"
    by (cases "period \<le> int (length prices)") (simp_all add: min_def)
  finally show ?thesis by (simp add: js_sum_def)
qed

lemma ema_loop_below:
  "k < i \<Longrightarrow> elems (ema_loop prices m i a) k = elems a k"
proof (induction prices m i a rule: ema_loop.induct)
  case (1 prices m i a)
  show ?case
  proof (cases "i < int (length prices)")
    case False
    then show ?thesis by (simp add: ema_loop.simps)
  next
    case True
    then show ?thesis
      using "1.IH" [OF True] "1.prems"
      by (subst ema_loop.simps) (simp add: arr_set_def)
  qed
qed

lemma ema_loop_above:
  "int (length prices) \<le> k \<Longrightarrow> elems (ema_loop prices m i a) k = elems a k"
proof (induction prices m i a rule: ema_loop.induct)
  case (1 prices m i a)
  show ?case
  proof (cases "i < int (length prices)")
    case False
    then show ?thesis by (simp add: ema_loop.simps)
  next
    case True
    then show ?thesis
      using "1.IH" [OF True] "1.prems"
      by (subst ema_loop.simps) (simp add: arr_set_def)
  qed
qed

lemma ema_loop_length:
  "arr_length (ema_loop prices m i a)
   = (if i < int (length prices) then max (arr_length a) (length prices) else arr_length a)"
proof (induction prices m i a rule: ema_loop.induct)
  case (1 prices m i a)
  show ?case
  proof (cases "i < int (length prices)")
    case False
    then show ?thesis by (simp add: ema_loop.simps)
  next
    case True
    then show ?thesis
      using "1.IH" [OF True]
      by (subst ema_loop.simps) (auto simp add: arr_set_def max_def)
  qed
qed

lemma ema_loop_at:
  "i \<le> k \<Longrightarrow> k < int (length prices) \<Longrightarrow>
   elems (ema_loop prices m i a) k
   = Some (ema_step m (to_number (list_get prices k))
             (to_number (elems (ema_loop prices m i a) (k - 1))))"
proof (induction prices m i a rule: ema_loop.induct)
  case (1 prices m i a)
  from "1.prems" have True: "i < int (length prices)" by simp
  let ?a' = "arr_set a i (ema_step m (to_number (list_get prices i)) (to_number (arr_get a (i - 1))))"
  have unf: "ema_loop prices m i a = ema_loop prices m (i + 1) ?a'"
    using True by (subst ema_loop.simps) simp
  show ?case
  proof (cases "k = i")
    case True
    have "elems (ema_loop prices m (i + 1) ?a') i = elems ?a' i"
      by (rule ema_loop_below) simp
    moreover have "elems (ema_loop prices m (i + 1) ?a') (i - 1) = elems ?a' (i - 1)"
      by (rule ema_loop_below) simp
    ultimately show ?thesis
      unfolding unf True by (simp add: arr_set_def arr_get_def)
  next
    case False
    with "1.prems" have "i + 1 \<le> k" by simp
    from "1.IH" [OF True this "1.prems"(2)] show ?thesis unfolding unf .
  qed
qed

section \<open>What \<open>calculateEMA\<close> returns\<close>

lemma to_number_simps [simp]: "to_number (Some x) = x" "to_number None = NaN"
  by (simp_all add: to_number_def)

lemma calculateEMA_loop:
  "calculateEMA prices period =
   ema_loop prices (js_div (Fin 2) (js_int (period + 1))) period
     (arr_set arr_empty (period - 1)
        (js_div (js_sum (take (nat period) prices))
           (js_int (min period (int (length prices))))))"
  by (simp add: calculateEMA_def Let_def sum_loop_take)

lemma seed_array_elems:
  "elems (arr_set arr_empty j v) k = (if k = j then Some v else None)"
  by (simp add: arr_set_def arr_empty_def)

lemma seed_array_length:
  "arr_length (arr_set arr_empty j v) = (if 0 \<le> j then nat j + 1 else 0)"
  by (simp add: arr_set_def arr_empty_def)

lemma calculateEMA_seed:
  "arr_get (calculateEMA prices period) (period - 1)
   = Some (js_div (js_sum (take (nat period) prices))
             (js_int (min period (int (length prices)))))"
  by (simp add: calculateEMA_loop arr_get_def ema_loop_below seed_array_elems)

lemma calculateEMA_before_seed:
  "k < period - 1 \<Longrightarrow> arr_get (calculateEMA prices period) k = None"
  by (simp add: calculateEMA_loop arr_get_def ema_loop_below seed_array_elems)

lemma calculateEMA_beyond:
  "int (length prices) \<le> k \<Longrightarrow> k \<noteq> period - 1 \<Longrightarrow>
   arr_get (calculateEMA prices period) k = None"
  by (simp add: calculateEMA_loop arr_get_def ema_loop_above seed_array_elems)

lemma calculateEMA_recurrence:
  "period \<le> k \<Longrightarrow> k < int (length prices) \<Longrightarrow>
   arr_get (calculateEMA prices period) k
   = Some (ema_step (js_div (Fin 2) (js_int (period + 1))) (to_number (list_get prices k))
             (to_number (arr_get (calculateEMA prices period) (k - 1))))"
  unfolding calculateEMA_loop arr_get_def by (rule ema_loop_at)

lemma calculateEMA_length:
  "arr_length (calculateEMA prices period)
   = (if period < int (length prices) then max (if 1 \<le> period then nat period else 0) (length prices)
      else if 1 \<le> period then nat period else 0)"
  by (auto simp add: calculateEMA_loop ema_loop_length seed_array_length)

lemma calculateEMA_defined:
  assumes "period - 1 \<le> k" "k < int (length prices)"
  shows "arr_get (calculateEMA prices period) k \<noteq> None"
proof (cases "k = period - 1")
  case True
  then show ?thesis by (simp add: calculateEMA_seed)
next
  case False
  with assms have "period \<le> k" by simp
  from calculateEMA_recurrence [OF this assms(2)] show ?thesis by simp
qed



text \<open>
  Claim C3. For a series at least as long as the period, the result has the length of
  the input, no entry below index \<open>period - 1\<close>, an entry at every index from
  \<open>period - 1\<close> up to the end, and none beyond.
\<close>

theorem ema_shape:
  assumes "period \<le> int (length prices)"
  shows "arr_length (calculateEMA prices period) = length prices
         \<and> (\<forall>k. k < period - 1 \<longrightarrow> arr_get (calculateEMA prices period) k = None)
         \<and> (\<forall>k. period - 1 \<le> k \<and> k < int (length prices) \<longrightarrow>
               arr_get (calculateEMA prices period) k \<noteq> None)
         \<and> (\<forall>k. int (length prices) \<le> k \<longrightarrow>
               arr_get (calculateEMA prices period) k = None)"
proof -
  have "arr_get (calculateEMA prices period) k = None" if "int (length prices) \<le> k" for k
    using that assms by (intro calculateEMA_beyond) simp_all
  moreover have "arr_length (calculateEMA prices period) = length prices"
  proof (cases "period < int (length prices)")
    case True
    then show ?thesis by (simp add: calculateEMA_length)
  next
    case False
    with assms have "period = int (length prices)" by simp
    then show ?thesis by (cases prices) (simp_all add: calculateEMA_length)
  qed
  ultimately show ?thesis
    by (simp add: calculateEMA_before_seed calculateEMA_defined)
qed

theorem ema_shape_witness:
  "(2::int) \<le> int (length [Fin 1, Fin 2, Fin 3])
   \<and> arr_length (calculateEMA [Fin 1, Fin 2, Fin 3] 2) = 3
   \<and> arr_get (calculateEMA [Fin 1, Fin 2, Fin 3] 2) 0 = None
   \<and> arr_get (calculateEMA [Fin 1, Fin 2, Fin 3] 2) 1 \<noteq> None
   \<and> arr_get (calculateEMA [Fin 1, Fin 2, Fin 3] 2) 2 \<noteq> None"
proof -
  have h: "(2::int) \<le> int (length [Fin 1, Fin 2, Fin 3])" by simp
  from ema_shape [OF h] show ?thesis by simp
qed



section \<open>The rounding of doubles\<close>

lemma js_add_NaN_right [simp]: "js_add x NaN = NaN"
  by (cases x) simp_all

subsection \<open>The exponent\<close>

lemma expo_ge: "- 1022 \<le> expo x"
  by (simp add: expo_def)

lemma floor_log2: 
  assumes "x \<noteq> 0"
  shows "2 powi \<lfloor>log 2 \<bar>x\<bar>\<rfloor> \<le> \<bar>x\<bar> \<and> \<bar>x\<bar> < 2 powi (\<lfloor>log 2 \<bar>x\<bar>\<rfloor> + 1)"
proof -
  from assms have pos: "0 < \<bar>x\<bar>" by simp
  have "(2::real) powr of_int \<lfloor>log 2 \<bar>x\<bar>\<rfloor> \<le> \<bar>x\<bar>
        \<and> \<bar>x\<bar> < 2 powr (of_int \<lfloor>log 2 \<bar>x\<bar>\<rfloor> + 1)"
    using floor_log_eq_powr_iff [OF pos, of 2 "\<lfloor>log 2 \<bar>x\<bar>\<rfloor>"] by simp
  moreover have "(2::real) powr of_int k = 2 powi k" for k
    by (rule powr_real_of_int') simp_all
  moreover have "(2::real) powr (of_int k + 1) = 2 powi (k + 1)" for k
    using powr_real_of_int' [of 2 "k + 1"] by simp
  ultimately show ?thesis by simp
qed

lemma expo_unique:
  assumes "2 powi k \<le> \<bar>x\<bar>" and "\<bar>x\<bar> < 2 powi (k + 1)"
  shows "\<lfloor>log 2 \<bar>x\<bar>\<rfloor> = k"
proof -
  have "(0::real) < 2 powi k" by simp
  with assms(1) have pos: "0 < \<bar>x\<bar>" by linarith
  have a: "(2::real) powr of_int k = 2 powi k"
    by (rule powr_real_of_int') simp_all
  have b: "(2::real) powr (of_int k + 1) = 2 powi (k + 1)"
    using powr_real_of_int' [of 2 "k + 1"] by simp
  show ?thesis
    using floor_log_eq_powr_iff [OF pos, of 2 k] assms by (simp add: a b)
qed

lemma expo_eq:
  assumes "2 powi k \<le> \<bar>x\<bar>" and "\<bar>x\<bar> < 2 powi (k + 1)" and "- 1022 \<le> k"
  shows "expo x = k"
proof -
  have "(0::real) < 2 powi k" by simp
  with assms(1) have "0 < \<bar>x\<bar>" by linarith
  then have "x \<noteq> 0" by simp
  with expo_unique [OF assms(1,2)] assms(3) show ?thesis by (simp add: expo_def)
qed

lemma expo_upper: "\<bar>x\<bar> < 2 powi (expo x + 1)"
proof (cases "x = 0")
  case True
  then show ?thesis by simp
next
  case False
  let ?k = "\<lfloor>log 2 \<bar>x\<bar>\<rfloor>"
  from floor_log2 [OF False] have "\<bar>x\<bar> < 2 powi (?k + 1)" by simp
  also have "\<dots> \<le> 2 powi (expo x + 1)"
    using False by (intro power_int_increasing) (simp_all add: expo_def)
  finally show ?thesis .
qed

lemma expo_lower: "expo x = - 1022 \<or> 2 powi (expo x) \<le> \<bar>x\<bar>"
proof (cases "x = 0")
  case True
  then show ?thesis by (simp add: expo_def)
next
  case False
  from floor_log2 [OF False] show ?thesis
    using False by (auto simp add: expo_def max_def)
qed

lemma expo_small:
  assumes "\<bar>x\<bar> < 2 powi (- 1022)"
  shows "expo x = - 1022"
proof (rule ccontr)
  assume n: "expo x \<noteq> - 1022"
  with expo_lower [of x] have "2 powi (expo x) \<le> \<bar>x\<bar>" by simp
  moreover have "(2::real) powi (- 1022) \<le> 2 powi (expo x)"
    using expo_ge [of x] by (intro power_int_increasing) simp_all
  ultimately show False using assms by simp
qed

lemma expo_le:
  assumes "\<bar>x\<bar> < 2 powi (m + 1)" and "- 1022 \<le> m"
  shows "expo x \<le> m"
proof (rule ccontr)
  assume "\<not> expo x \<le> m"
  then have gt: "m + 1 \<le> expo x" by simp
  with assms(2) expo_lower [of x] have "2 powi (expo x) \<le> \<bar>x\<bar>" by auto
  moreover have "(2::real) powi (m + 1) \<le> 2 powi (expo x)"
    using gt by (intro power_int_increasing) simp_all
  ultimately show False using assms(1) by simp
qed

lemma quantum_pos: "0 < quantum x"
  by (simp add: quantum_def)

subsection \<open>Rounding to an integer\<close>

lemma round_even_int [simp]: "round_even (of_int n) = n"
  by (simp add: round_even_def)

lemma round_even_near:
  "of_int (round_even t) \<le> t + 1 / 2" "t - 1 / 2 \<le> of_int (round_even t)"
  unfolding round_even_def Let_def by (auto split: if_splits) linarith+

lemma round_even_mono:
  assumes "t \<le> u"
  shows "round_even t \<le> round_even u"
proof (cases "\<lfloor>t\<rfloor> = \<lfloor>u\<rfloor>")
  case True
  with assms show ?thesis
    unfolding round_even_def Let_def by (auto split: if_splits)
next
  case False
  with assms have "\<lfloor>t\<rfloor> + 1 \<le> \<lfloor>u\<rfloor>" using floor_mono [OF assms] by linarith
  moreover have "round_even t \<le> \<lfloor>t\<rfloor> + 1" "\<lfloor>u\<rfloor> \<le> round_even u"
    unfolding round_even_def Let_def by (auto split: if_splits)
  ultimately show ?thesis by linarith
qed

lemma round_even_le: "t \<le> of_int n \<Longrightarrow> round_even t \<le> n"
  using round_even_mono [of t "of_int n"] by simp

lemma round_even_ge: "of_int n \<le> t \<Longrightarrow> n \<le> round_even t"
  using round_even_mono [of "of_int n" t] by simp

subsection \<open>Rounding to a double\<close>

lemma round_real_le:
  assumes "x \<le> of_int N * quantum x"
  shows "round_real x \<le> of_int N * quantum x"
proof -
  from assms have "x / quantum x \<le> of_int N"
    using quantum_pos [of x] by (simp add: pos_divide_le_eq)
  then have "round_even (x / quantum x) \<le> N" by (rule round_even_le)
  then have "(of_int (round_even (x / quantum x)) :: real) \<le> of_int N" by simp
  then show ?thesis
    unfolding round_real_def using quantum_pos [of x] by (simp add: mult_right_mono)
qed

lemma round_real_ge:
  assumes "of_int N * quantum x \<le> x"
  shows "of_int N * quantum x \<le> round_real x"
proof -
  from assms have "of_int N \<le> x / quantum x"
    using quantum_pos [of x] by (simp add: pos_le_divide_eq)
  then have "N \<le> round_even (x / quantum x)" by (rule round_even_ge)
  then have "(of_int N :: real) \<le> of_int (round_even (x / quantum x))" by simp
  then show ?thesis
    unfolding round_real_def using quantum_pos [of x] by (simp add: mult_right_mono)
qed

lemma pow2_add: "(2::real) powi (a + b) = 2 powi a * 2 powi b"
  by (rule power_int_add) simp

lemma binade_top: "of_int (2 ^ 53) * quantum x = 2 powi (expo x + 1)"
proof -
  have "of_int (2 ^ 53) * quantum x = 2 powi 53 * 2 powi (expo x - 52)"
    by (simp add: quantum_def)
  also have "\<dots> = 2 powi (53 + (expo x - 52))" by (rule pow2_add [symmetric])
  also have "53 + (expo x - 52) = expo x + 1" by simp
  finally show ?thesis .
qed

lemma binade_bottom: "of_int (2 ^ 52) * quantum x = 2 powi (expo x)"
proof -
  have "of_int (2 ^ 52) * quantum x = 2 powi 52 * 2 powi (expo x - 52)"
    by (simp add: quantum_def)
  also have "\<dots> = 2 powi (52 + (expo x - 52))" by (rule pow2_add [symmetric])
  also have "52 + (expo x - 52) = expo x" by simp
  finally show ?thesis .
qed

lemma round_even_zero [simp]: "round_even 0 = 0"
  by (simp add: round_even_def)

lemma round_real_zero [simp]: "round_real 0 = 0"
  by (simp add: round_real_def)

lemma round_real_nonneg: "0 \<le> x \<Longrightarrow> 0 \<le> round_real x"
  using round_real_ge [of 0 x] by simp

lemma round_real_nonpos: "x \<le> 0 \<Longrightarrow> round_real x \<le> 0"
  using round_real_le [of x 0] by simp

lemma round_real_binade:
  "round_real x \<le> 2 powi (expo x + 1)" "- (2 powi (expo x + 1)) \<le> round_real x"
proof -
  have "x \<le> of_int (2 ^ 53) * quantum x"
    using expo_upper [of x] unfolding binade_top by linarith
  from round_real_le [OF this] show "round_real x \<le> 2 powi (expo x + 1)"
    unfolding binade_top .
  have "of_int (- (2 ^ 53)) * quantum x = - (of_int (2 ^ 53) * quantum x)"
    by (simp only: of_int_minus mult_minus_left)
  then have m: "of_int (- (2 ^ 53)) * quantum x = - (2 powi (expo x + 1))"
    by (simp only: binade_top)
  have "of_int (- (2 ^ 53)) * quantum x \<le> x"
    using expo_upper [of x] unfolding m by linarith
  from round_real_ge [OF this] show "- (2 powi (expo x + 1)) \<le> round_real x"
    unfolding m .
qed

lemma round_real_multiple:
  assumes "y = of_int n * 2 powi j" and "expo y - 52 \<le> j"
  shows "round_real y = y"
proof -
  define d where "d = nat (j - (expo y - 52))"
  define q where "q = quantum y"
  have q: "0 < q" by (simp add: q_def quantum_pos)
  have "j = (expo y - 52) + int d" using assms(2) by (simp add: d_def)
  then have "(2::real) powi j = 2 powi ((expo y - 52) + int d)"
    by (rule arg_cong)
  also have "\<dots> = 2 powi (expo y - 52) * 2 powi (int d)" by (rule pow2_add)
  finally have j: "(2::real) powi j = q * 2 ^ d"
    by (simp only: q_def quantum_def power_int_of_nat)
  have y: "y = of_int (n * 2 ^ d) * q"
    using assms(1) unfolding j by simp
  then have "y / q = of_int (n * 2 ^ d)" using q by simp
  then have "round_even (y / q) = n * 2 ^ d" by (simp only: round_even_int)
  then have "round_real y = of_int (n * 2 ^ d) * q"
    by (simp only: round_real_def q_def)
  with y show ?thesis by simp
qed

lemma round_real_idem: "round_real (round_real x) = round_real x"
proof -
  let ?y = "round_real x" and ?k = "expo x"
  have le: "\<bar>?y\<bar> \<le> 2 powi (?k + 1)"
    using round_real_binade [of x] by simp
  show ?thesis
  proof (cases "\<bar>?y\<bar> = 2 powi (?k + 1)")
    case True
    moreover have "(2::real) powi (?k + 1) < 2 powi ((?k + 1) + 1)"
      by (intro power_int_strict_increasing) simp_all
    ultimately have "\<bar>?y\<bar> < 2 powi ((?k + 1) + 1)" by linarith
    then have "expo ?y \<le> ?k + 1" using expo_ge [of x] by (intro expo_le) simp_all
    moreover from True have "?y = of_int (if 0 \<le> ?y then 1 else - 1) * 2 powi (?k + 1)"
      by (simp split: if_splits) linarith
    ultimately show ?thesis by (intro round_real_multiple [of _ "if 0 \<le> ?y then 1 else - 1" "?k + 1"]) simp_all
  next
    case False
    with le have "\<bar>?y\<bar> < 2 powi (?k + 1)" by simp
    then have "expo ?y \<le> ?k" using expo_ge [of x] by (intro expo_le) simp_all
    moreover have "?y = of_int (round_even (x / quantum x)) * 2 powi (?k - 52)"
      by (simp add: round_real_def quantum_def)
    ultimately show ?thesis by (intro round_real_multiple [of _ "round_even (x / quantum x)" "?k - 52"]) simp_all
  qed
qed

lemma round_real_mono:
  assumes "x \<le> y"
  shows "round_real x \<le> round_real y"
proof (cases "expo x = expo y")
  case True
  then have q: "quantum x = quantum y" by (simp add: quantum_def)
  from assms have "x / quantum y \<le> y / quantum y"
    using quantum_pos [of y] by (simp add: divide_right_mono)
  then have "round_even (x / quantum y) \<le> round_even (y / quantum y)"
    by (rule round_even_mono)
  then have "(of_int (round_even (x / quantum y)) :: real) \<le> of_int (round_even (y / quantum y))"
    by simp
  then show ?thesis
    unfolding round_real_def q using quantum_pos [of y] by (simp add: mult_right_mono)
next
  case False
  consider (pos) "0 \<le> x" | (neg) "y \<le> 0" | (mixed) "x < 0" "0 < y" by linarith
  then show ?thesis
  proof cases
    case mixed
    then show ?thesis
      using round_real_nonpos [of x] round_real_nonneg [of y] by simp
  next
    case pos
    have lt: "expo x < expo y"
    proof (rule ccontr)
      assume "\<not> expo x < expo y"
      with False have g: "expo y + 1 \<le> expo x" by simp
      with expo_ge [of y] expo_lower [of x] have "2 powi (expo x) \<le> \<bar>x\<bar>" by auto
      moreover have "(2::real) powi (expo y + 1) \<le> 2 powi (expo x)"
        using g by (intro power_int_increasing) simp_all
      ultimately show False using expo_upper [of y] pos assms by simp
    qed
    with expo_ge [of x] expo_lower [of y] have ly: "2 powi (expo y) \<le> \<bar>y\<bar>" by auto
    have "of_int (2 ^ 52) * quantum y \<le> y"
      using ly pos assms unfolding binade_bottom by linarith
    from round_real_ge [OF this] have "2 powi (expo y) \<le> round_real y"
      unfolding binade_bottom .
    moreover have "(2::real) powi (expo x + 1) \<le> 2 powi (expo y)"
      using lt by (intro power_int_increasing) simp_all
    ultimately show ?thesis using round_real_binade(1) [of x] by linarith
  next
    case neg
    have lt: "expo y < expo x"
    proof (rule ccontr)
      assume "\<not> expo y < expo x"
      with False have g: "expo x + 1 \<le> expo y" by simp
      with expo_ge [of x] expo_lower [of y] have "2 powi (expo y) \<le> \<bar>y\<bar>" by auto
      moreover have "(2::real) powi (expo x + 1) \<le> 2 powi (expo y)"
        using g by (intro power_int_increasing) simp_all
      ultimately show False using expo_upper [of x] neg assms by simp
    qed
    with expo_ge [of y] expo_lower [of x] have lx: "2 powi (expo x) \<le> \<bar>x\<bar>" by auto
    have "of_int (- (2 ^ 52)) * quantum x = - (of_int (2 ^ 52) * quantum x)"
      by (simp only: of_int_minus mult_minus_left)
    then have m: "of_int (- (2 ^ 52)) * quantum x = - (2 powi (expo x))"
      by (simp only: binade_bottom)
    have "x \<le> of_int (- (2 ^ 52)) * quantum x"
      using lx neg assms unfolding m by linarith
    from round_real_le [OF this] have "round_real x \<le> - (2 powi (expo x))"
      unfolding m .
    moreover have "(2::real) powi (expo y + 1) \<le> 2 powi (expo x)"
      using lt by (intro power_int_increasing) simp_all
    ultimately show ?thesis using round_real_binade(2) [of y] by linarith
  qed
qed

lemma half_quantum: "quantum x / 2 = 2 powi (- 53) * 2 powi (expo x)"
proof -
  have "quantum x = 2 powi (- 52 + expo x)" by (simp add: quantum_def)
  also have "\<dots> = 2 powi (- 52) * 2 powi (expo x)" by (rule pow2_add)
  finally show ?thesis by simp
qed

lemma round_real_error:
  "\<bar>round_real x - x\<bar> \<le> 2 powi (- 53) * max \<bar>x\<bar> (2 powi (- 1022))"
proof -
  define q where "q = quantum x"
  define t where "t = x / q"
  have q: "0 < q" by (simp add: q_def quantum_pos)
  have x: "x = t * q" using q by (simp add: t_def)
  have r: "round_real x = of_int (round_even t) * q"
    by (simp add: round_real_def q_def t_def)
  have "\<bar>of_int (round_even t) - t\<bar> \<le> 1 / 2"
    using round_even_near [of t] by linarith
  then have "\<bar>of_int (round_even t) - t\<bar> * q \<le> 1 / 2 * q"
    using q by (intro mult_right_mono) simp_all
  moreover have "round_real x - x = (of_int (round_even t) - t) * q"
    unfolding r by (subst x) (simp add: algebra_simps)
  ultimately have "\<bar>round_real x - x\<bar> \<le> q / 2"
    using q by (simp add: abs_mult)
  also have "q / 2 = 2 powi (- 53) * 2 powi (expo x)"
    unfolding q_def by (rule half_quantum)
  also have "\<dots> \<le> 2 powi (- 53) * max \<bar>x\<bar> (2 powi (- 1022))"
  proof (intro mult_left_mono)
    show "2 powi expo x \<le> max \<bar>x\<bar> (2 powi (- 1022))"
      using expo_lower [of x] by auto
  qed simp
  finally show ?thesis .
qed

lemma multiple_of_least:
  assumes "round_real a = a"
  shows "\<exists>N. a = of_int N * 2 powi (- 1074)"
proof -
  define d where "d = nat (expo a + 1022)"
  define n where "n = round_even (a / quantum a)"
  have "expo a - 52 = - 1074 + int d" using expo_ge [of a] by (simp add: d_def)
  then have "(2::real) powi (expo a - 52) = 2 powi (- 1074 + int d)" by (rule arg_cong)
  also have "\<dots> = 2 powi (- 1074) * 2 powi (int d)" by (rule pow2_add)
  finally have q: "quantum a = 2 powi (- 1074) * 2 ^ d"
    by (simp only: quantum_def power_int_of_nat)
  have "a = of_int n * quantum a"
    using assms by (simp add: round_real_def n_def)
  then have "a = of_int n * (2 powi (- 1074) * 2 ^ d)" unfolding q .
  then have "a = of_int (n * 2 ^ d) * 2 powi (- 1074)" by (simp add: mult_ac)
  then show ?thesis ..
qed

lemma round_real_small_difference:
  assumes "round_real a = a" and "round_real b = b" and "\<bar>a - b\<bar> < 2 powi (- 1022)"
  shows "round_real (a - b) = a - b"
proof -
  from multiple_of_least [OF assms(1)] obtain A where a: "a = of_int A * 2 powi (- 1074)" ..
  from multiple_of_least [OF assms(2)] obtain B where b: "b = of_int B * 2 powi (- 1074)" ..
  have "a - b = of_int (A - B) * 2 powi (- 1074)"
    by (subst a, subst b) (simp add: algebra_simps)
  moreover have "expo (a - b) - 52 \<le> - 1074"
    using expo_small [OF assms(3)] by simp
  ultimately show ?thesis by (rule round_real_multiple)
qed

text \<open>The three roundings of one smoothing step, for a multiplier of at most 3/4.\<close>

lemma smoothing_up:
  assumes p: "round_real p = p" and e: "round_real e = e"
    and m: "0 \<le> m" "m \<le> 3 / 4" and le: "e \<le> p"
  shows "0 \<le> round_real (round_real (p - e) * m)"
    and "round_real (round_real (p - e) * m) \<le> round_real (p - e)"
    and "e \<le> round_real (round_real (round_real (p - e) * m) + e)"
    and "round_real (round_real (round_real (p - e) * m) + e) \<le> p"
proof -
  define d where "d = p - e"
  define r1 where "r1 = round_real d"
  define t where "t = r1 * m"
  define r2 where "r2 = round_real t"
  define \<kappa> where "\<kappa> = (2::real) powi (- 1022)"
  have d0: "0 \<le> d" using le by (simp add: d_def)
  have r10: "0 \<le> r1" unfolding r1_def using d0 by (rule round_real_nonneg)
  have t0: "0 \<le> t" unfolding t_def using r10 m(1) by simp
  have "r1 * m \<le> r1 * 1" using r10 m(2) by (intro mult_left_mono) simp_all
  then have t1: "t \<le> r1" by (simp add: t_def)
  have r20: "0 \<le> r2" unfolding r2_def using t0 by (rule round_real_nonneg)
  have "round_real t \<le> round_real r1" using t1 by (rule round_real_mono)
  then have r21: "r2 \<le> r1" by (simp add: r2_def r1_def round_real_idem)
  have r2d: "r2 \<le> d"
  proof (cases "d < \<kappa>")
    case True
    then have "\<bar>p - e\<bar> < 2 powi (- 1022)" using d0 by (simp add: d_def \<kappa>_def)
    from round_real_small_difference [OF p e this] have "r1 = d" by (simp add: r1_def d_def)
    with r21 show ?thesis by simp
  next
    case False
    then have k: "\<kappa> \<le> d" by simp
    define \<delta> where "\<delta> = (2::real) powi (- 53)"
    have \<delta>: "0 \<le> \<delta>" "\<delta> \<le> 1 / 8" by (simp_all add: \<delta>_def)
    define x where "x = \<delta> * d"
    have x0: "0 \<le> x" unfolding x_def using \<delta>(1) d0 by simp
    have "\<delta> * d \<le> 1 / 8 * d" using \<delta>(2) d0 by (intro mult_right_mono) simp_all
    then have x8: "x \<le> d / 8" by (simp add: x_def)
    have "\<bar>r1 - d\<bar> \<le> \<delta> * max \<bar>d\<bar> \<kappa>"
      unfolding r1_def \<kappa>_def \<delta>_def by (rule round_real_error)
    moreover have "max \<bar>d\<bar> \<kappa> = d" using k d0 by simp
    ultimately have "\<bar>r1 - d\<bar> \<le> x" by (simp only: x_def)
    then have a: "r1 \<le> d + x" by linarith
    have "r1 * m \<le> r1 * (3 / 4)" using r10 m(2) by (intro mult_left_mono) simp_all
    then have b: "t \<le> r1 * (3 / 4)" by (simp add: t_def)
    have "max \<bar>t\<bar> \<kappa> \<le> d + x" using t0 t1 a k x0 by simp
    then have "\<delta> * max \<bar>t\<bar> \<kappa> \<le> \<delta> * (d + x)"
      using \<delta>(1) by (intro mult_left_mono) simp_all
    moreover have "\<delta> * (d + x) \<le> 1 / 8 * (d + x)"
      using \<delta>(2) d0 x0 by (intro mult_right_mono) simp_all
    moreover have "\<bar>r2 - t\<bar> \<le> \<delta> * max \<bar>t\<bar> \<kappa>"
      unfolding r2_def \<kappa>_def \<delta>_def by (rule round_real_error)
    ultimately have "\<bar>r2 - t\<bar> \<le> 1 / 8 * (d + x)" by linarith
    then have "r2 \<le> t + 1 / 8 * (d + x)" by linarith
    with a b x8 d0 show ?thesis by argo
  qed
  show "0 \<le> round_real (round_real (p - e) * m)"
    using r20 by (simp add: r2_def t_def r1_def d_def)
  show "round_real (round_real (p - e) * m) \<le> round_real (p - e)"
    using r21 by (simp add: r2_def t_def r1_def d_def)
  have "e \<le> r2 + e" using r20 by simp
  then have "round_real e \<le> round_real (r2 + e)" by (rule round_real_mono)
  then show "e \<le> round_real (round_real (round_real (p - e) * m) + e)"
    by (simp add: e r2_def t_def r1_def d_def)
  have "r2 + e \<le> p" using r2d by (simp add: d_def)
  then have "round_real (r2 + e) \<le> round_real p" by (rule round_real_mono)
  then show "round_real (round_real (round_real (p - e) * m) + e) \<le> p"
    by (simp add: p r2_def t_def r1_def d_def)
qed

lemma smoothing_down:
  assumes p: "round_real p = p" and e: "round_real e = e"
    and m: "0 \<le> m" "m \<le> 3 / 4" and le: "p \<le> e"
  shows "round_real (round_real (p - e) * m) \<le> 0"
    and "round_real (p - e) \<le> round_real (round_real (p - e) * m)"
    and "p \<le> round_real (round_real (round_real (p - e) * m) + e)"
    and "round_real (round_real (round_real (p - e) * m) + e) \<le> e"
proof -
  define d where "d = p - e"
  define r1 where "r1 = round_real d"
  define t where "t = r1 * m"
  define r2 where "r2 = round_real t"
  define \<kappa> where "\<kappa> = (2::real) powi (- 1022)"
  have d0: "d \<le> 0" using le by (simp add: d_def)
  have r10: "r1 \<le> 0" unfolding r1_def using d0 by (rule round_real_nonpos)
  have t0: "t \<le> 0" unfolding t_def using r10 m(1) by (simp add: mult_nonpos_nonneg)
  have "r1 * 1 \<le> r1 * m" using r10 m(2) by (intro mult_left_mono_neg) simp_all
  then have t1: "r1 \<le> t" by (simp add: t_def)
  have r20: "r2 \<le> 0" unfolding r2_def using t0 by (rule round_real_nonpos)
  have "round_real r1 \<le> round_real t" using t1 by (rule round_real_mono)
  then have r21: "r1 \<le> r2" by (simp add: r2_def r1_def round_real_idem)
  have r2d: "d \<le> r2"
  proof (cases "- d < \<kappa>")
    case True
    then have "\<bar>p - e\<bar> < 2 powi (- 1022)" using d0 by (simp add: d_def \<kappa>_def)
    from round_real_small_difference [OF p e this] have "r1 = d" by (simp add: r1_def d_def)
    with r21 show ?thesis by simp
  next
    case False
    then have k: "\<kappa> \<le> - d" by simp
    define \<delta> where "\<delta> = (2::real) powi (- 53)"
    have \<delta>: "0 \<le> \<delta>" "\<delta> \<le> 1 / 8" by (simp_all add: \<delta>_def)
    define x where "x = \<delta> * (- d)"
    have x0: "0 \<le> x" unfolding x_def using \<delta>(1) d0 by (intro mult_nonneg_nonneg) simp_all
    have "\<delta> * (- d) \<le> 1 / 8 * (- d)" using \<delta>(2) d0 by (intro mult_right_mono) simp_all
    then have x8: "x \<le> (- d) / 8" by (simp add: x_def)
    have "\<bar>r1 - d\<bar> \<le> \<delta> * max \<bar>d\<bar> \<kappa>"
      unfolding r1_def \<kappa>_def \<delta>_def by (rule round_real_error)
    moreover have "max \<bar>d\<bar> \<kappa> = - d" using k d0 by simp
    ultimately have "\<bar>r1 - d\<bar> \<le> x" by (simp only: x_def)
    then have a: "d - x \<le> r1" by linarith
    have "r1 * (3 / 4) \<le> r1 * m" using r10 m(2) by (intro mult_left_mono_neg) simp_all
    then have b: "r1 * (3 / 4) \<le> t" by (simp add: t_def)
    have "max \<bar>t\<bar> \<kappa> \<le> - d + x" using t0 t1 a k x0 by simp
    then have "\<delta> * max \<bar>t\<bar> \<kappa> \<le> \<delta> * (- d + x)"
      using \<delta>(1) by (intro mult_left_mono) simp_all
    moreover have "\<delta> * (- d + x) \<le> 1 / 8 * (- d + x)"
      using \<delta>(2) d0 x0 by (intro mult_right_mono) simp_all
    moreover have "\<bar>r2 - t\<bar> \<le> \<delta> * max \<bar>t\<bar> \<kappa>"
      unfolding r2_def \<kappa>_def \<delta>_def by (rule round_real_error)
    ultimately have "\<bar>r2 - t\<bar> \<le> 1 / 8 * (- d + x)" by linarith
    then have "t - 1 / 8 * (- d + x) \<le> r2" by linarith
    with a b x8 d0 show ?thesis by argo
  qed
  show "round_real (round_real (p - e) * m) \<le> 0"
    using r20 by (simp add: r2_def t_def r1_def d_def)
  show "round_real (p - e) \<le> round_real (round_real (p - e) * m)"
    using r21 by (simp add: r2_def t_def r1_def d_def)
  have "r2 + e \<le> e" using r20 by simp
  then have "round_real (r2 + e) \<le> round_real e" by (rule round_real_mono)
  then show "round_real (round_real (round_real (p - e) * m) + e) \<le> e"
    by (simp add: e r2_def t_def r1_def d_def)
  have "p \<le> r2 + e" using r2d by (simp add: d_def)
  then have "round_real p \<le> round_real (r2 + e)" by (rule round_real_mono)
  then show "p \<le> round_real (round_real (round_real (p - e) * m) + e)"
    by (simp add: p r2_def t_def r1_def d_def)
qed

subsection \<open>Overflow\<close>

lemma round64_Fin:
  "round64 x = Fin y \<longleftrightarrow> y = round_real x \<and> \<bar>round_real x\<bar> < overflow"
  by (auto simp add: round64_def Let_def)

lemma round64_finite:
  "\<bar>round_real x\<bar> < overflow \<Longrightarrow> round64 x = Fin (round_real x)"
  by (simp add: round64_Fin)

lemma double_fixed: "round64 p = Fin p \<Longrightarrow> round_real p = p"
  by (simp add: round64_Fin)

lemma round64_result_double: "round64 x = Fin y \<Longrightarrow> round64 y = Fin y"
  by (simp add: round64_Fin round_real_idem)

lemma rounded_result_double:
  "rounded round64 x = Fin y \<Longrightarrow> round64 y = Fin y"
  by (cases x) (simp_all add: rounded_def round64_result_double)

text \<open>One smoothing step on doubles.\<close>

lemma ema_step_between64:
  assumes p: "round64 p = Fin p" and e: "round64 e = Fin e"
    and m: "0 \<le> m" "m \<le> 3 / 4"
    and fin: "is_finite (rounded round64 (js_sub (Fin p) (Fin e)))"
  shows "\<exists>v. ema_step_rounded round64 (Fin m) (Fin p) (Fin e) = Fin v
             \<and> min e p \<le> v \<and> v \<le> max e p"
proof -
  define r1 where "r1 = round_real (p - e)"
  define r2 where "r2 = round_real (r1 * m)"
  define r3 where "r3 = round_real (r2 + e)"
  note pr = double_fixed [OF p] and er = double_fixed [OF e]
  have pb: "\<bar>p\<bar> < overflow" using p round64_Fin [of p p] by metis
  have eb: "\<bar>e\<bar> < overflow" using e round64_Fin [of e e] by metis
  from fin have s1: "round64 (p - e) = Fin r1" and b1: "\<bar>r1\<bar> < overflow"
    by (auto simp add: rounded_def js_sub_def is_finite_def round64_def Let_def r1_def
        split: if_splits)
  have bounds: "\<bar>r2\<bar> \<le> \<bar>r1\<bar> \<and> min e p \<le> r3 \<and> r3 \<le> max e p"
  proof (cases "e \<le> p")
    case True
    from smoothing_up [OF pr er m True] show ?thesis
      unfolding r1_def r2_def r3_def by simp
  next
    case False
    then have "p \<le> e" by simp
    from smoothing_down [OF pr er m this] show ?thesis
      unfolding r1_def r2_def r3_def by simp
  qed
  then have b2: "\<bar>r2\<bar> < overflow" using b1 by linarith
  from bounds pb eb have b3: "\<bar>r3\<bar> < overflow" by linarith
  have s2: "round64 (r1 * m) = Fin r2"
    using b2 by (simp add: round64_Fin r2_def)
  have s3: "round64 (r2 + e) = Fin r3"
    using b3 by (simp add: round64_Fin r3_def)
  have "ema_step_rounded round64 (Fin m) (Fin p) (Fin e) = Fin r3"
    by (simp add: ema_step_rounded_def rounded_def js_sub_def s1 s2 s3)
  with bounds show ?thesis by blast
qed

section \<open>\<open>calculateEMA\<close> on doubles\<close>

subsection \<open>The loops on doubles\<close>

lemma ema_loop_rounded_below:
  "k < i \<Longrightarrow> elems (ema_loop_rounded rnd prices m i a) k = elems a k"
proof (induction rnd prices m i a rule: ema_loop_rounded.induct)
  case (1 rnd prices m i a)
  show ?case
  proof (cases "i < int (length prices)")
    case False
    then show ?thesis by (simp add: ema_loop_rounded.simps)
  next
    case True
    then show ?thesis
      using "1.IH" [OF True] "1.prems"
      by (subst ema_loop_rounded.simps) (simp add: arr_set_def)
  qed
qed

lemma ema_loop_rounded_at:
  "i \<le> k \<Longrightarrow> k < int (length prices) \<Longrightarrow>
   elems (ema_loop_rounded rnd prices m i a) k
   = Some (ema_step_rounded rnd m (to_number (list_get prices k))
             (to_number (elems (ema_loop_rounded rnd prices m i a) (k - 1))))"
proof (induction rnd prices m i a rule: ema_loop_rounded.induct)
  case (1 rnd prices m i a)
  from "1.prems" have True: "i < int (length prices)" by simp
  let ?a' = "arr_set a i (ema_step_rounded rnd m (to_number (list_get prices i))
                            (to_number (arr_get a (i - 1))))"
  have unf: "ema_loop_rounded rnd prices m i a = ema_loop_rounded rnd prices m (i + 1) ?a'"
    using True by (subst ema_loop_rounded.simps) simp
  show ?case
  proof (cases "k = i")
    case True
    have "elems (ema_loop_rounded rnd prices m (i + 1) ?a') i = elems ?a' i"
      by (rule ema_loop_rounded_below) simp
    moreover have "elems (ema_loop_rounded rnd prices m (i + 1) ?a') (i - 1) = elems ?a' (i - 1)"
      by (rule ema_loop_rounded_below) simp
    ultimately show ?thesis
      unfolding unf True by (simp add: arr_set_def arr_get_def)
  next
    case False
    with "1.prems" have "i + 1 \<le> k" by simp
    from "1.IH" [OF True this "1.prems"(2)] show ?thesis unfolding unf .
  qed
qed

lemma calculateEMA_rounded_seed:
  "arr_get (calculateEMA_rounded rnd prices period) (period - 1)
   = Some (rounded rnd
       (js_div (sum_loop_rounded rnd prices (min period (int (length prices))) 0 (Fin 0))
          (js_int (min period (int (length prices))))))"
  by (simp add: calculateEMA_rounded_def Let_def arr_get_def ema_loop_rounded_below
      seed_array_elems)

lemma calculateEMA_rounded_recurrence:
  "period \<le> k \<Longrightarrow> k < int (length prices) \<Longrightarrow>
   arr_get (calculateEMA_rounded rnd prices period) k
   = Some (ema_step_rounded rnd (rounded rnd (js_div (Fin 2) (js_int (period + 1))))
             (to_number (list_get prices k))
             (to_number (arr_get (calculateEMA_rounded rnd prices period) (k - 1))))"
  unfolding calculateEMA_rounded_def Let_def arr_get_def by (rule ema_loop_rounded_at)

text \<open>Without rounding the loops on doubles are the exact loops.\<close>

lemma rounded_Fin [simp]: "rounded Fin x = x"
  by (cases x) (simp_all add: rounded_def)

lemma sum_loop_rounded_Fin: "sum_loop_rounded Fin prices n i s = sum_loop prices n i s"
proof (induction prices n i s rule: sum_loop.induct)
  case (1 prices n i s)
  show ?case
  proof (cases "i < n")
    case True
    with "1.IH" show ?thesis
      by (subst sum_loop_rounded.simps, subst sum_loop.simps) simp
  next
    case False
    then show ?thesis by (simp add: sum_loop_rounded.simps sum_loop.simps)
  qed
qed

lemma ema_loop_rounded_Fin: "ema_loop_rounded Fin prices m i a = ema_loop prices m i a"
proof (induction prices m i a rule: ema_loop.induct)
  case (1 prices m i a)
  show ?case
  proof (cases "i < int (length prices)")
    case True
    with "1.IH" show ?thesis
      by (subst ema_loop_rounded.simps, subst ema_loop.simps)
        (simp add: ema_step_rounded_def ema_step_def)
  next
    case False
    then show ?thesis by (simp add: ema_loop_rounded.simps ema_loop.simps)
  qed
qed

lemma calculateEMA_rounded_Fin: "calculateEMA_rounded Fin prices period = calculateEMA prices period"
  by (simp add: calculateEMA_rounded_def calculateEMA_def sum_loop_rounded_Fin
      ema_loop_rounded_Fin)

lemma overflow_powi: "overflow = 2 powi 1024"
proof -
  have "(2::real) powi (int 1024) = 2 ^ 1024" by (rule power_int_of_nat)
  then show ?thesis unfolding overflow_def by simp
qed

lemma abs_of_int_bound:
  assumes "\<bar>n\<bar> < 2 ^ 53" 
  shows "\<bar>of_int n :: real\<bar> < 2 powi 53"
proof -
  have "(of_int \<bar>n\<bar> :: real) < of_int (2 ^ 53)"
    using assms(1) by (simp only: of_int_less_iff)
  then have "\<bar>of_int n :: real\<bar> < 2 ^ 53" by (simp only: of_int_abs of_int_power of_int_numeral)
  moreover have "(2::real) powi (int 53) = 2 ^ 53" by (rule power_int_of_nat)
  ultimately show ?thesis by simp
qed

lemma double_dyadic:
  assumes "\<bar>n\<bar> < 2 ^ 53" and "- 1074 \<le> j" and "j \<le> 971"
  shows "round64 (of_int n * 2 powi j) = Fin (of_int n * 2 powi j)"
proof -
  define y :: real where "y = of_int n * 2 powi j"
  define q :: real where "q = 2 powi j"
  have q: "0 < q" by (simp add: q_def)
  have "\<bar>of_int n :: real\<bar> < 2 powi 53" using assms(1) by (rule abs_of_int_bound)
  then have "\<bar>of_int n :: real\<bar> * q < 2 powi 53 * q"
    using q by (rule mult_strict_right_mono)
  moreover have "\<bar>y\<bar> = \<bar>of_int n :: real\<bar> * q"
    using q unfolding y_def q_def [symmetric] by (simp only: abs_mult abs_of_pos)
  ultimately have "\<bar>y\<bar> < 2 powi 53 * 2 powi j" unfolding q_def by simp
  also have "\<dots> = 2 powi (53 + j)" by (rule pow2_add [symmetric])
  finally have b: "\<bar>y\<bar> < 2 powi (53 + j)" .
  have "53 + j = (j + 52) + 1" by simp
  with b have "\<bar>y\<bar> < 2 powi ((j + 52) + 1)" by (simp only:)
  moreover have "- 1022 \<le> j + 52" using assms(2) by simp
  ultimately have "expo y \<le> j + 52" by (rule expo_le)
  then have "expo y - 52 \<le> j" by simp
  with y_def have r: "round_real y = y" by (rule round_real_multiple)
  have "53 + j \<le> 1024" using assms(3) by simp
  then have "(2::real) powi (53 + j) \<le> 2 powi 1024"
    by (rule power_int_increasing) simp
  with b have "\<bar>y\<bar> < overflow" unfolding overflow_powi by (rule less_le_trans)
  with r have "\<bar>round_real y\<bar> < overflow" by (simp only:)
  then have "round64 y = Fin (round_real y)" by (rule round64_finite)
  with r show ?thesis unfolding y_def by (simp only:)
qed

lemma overflow_ge_1: "1 \<le> overflow"
  unfolding overflow_def by (rule one_le_power) simp

lemma three_quarters: "round_real (3 / 4) = 3 / 4"
proof -
  have "round64 (of_int 3 * 2 powi (- 2)) = Fin (of_int 3 * 2 powi (- 2))"
    by (rule double_dyadic) simp_all
  moreover have "of_int 3 * 2 powi (- 2) = (3 / 4 :: real)"
    by (simp add: power_int_minus)
  ultimately have "round64 (3 / 4) = Fin (3 / 4)" by (simp only:)
  then show ?thesis by (rule double_fixed)
qed

lemma multiplier64:
  assumes "2 \<le> period"
  shows "\<exists>m. rounded round64 (js_div (Fin 2) (js_int (period + 1))) = Fin m
             \<and> 0 \<le> m \<and> m \<le> 3 / 4"
proof -
  define x :: real where "x = 2 / (of_int period + 1)"
  have x: "0 \<le> x" "x \<le> 3 / 4"
    using assms by (simp_all add: x_def field_simps)
  from round_real_mono [OF x(2)] have u: "round_real x \<le> 3 / 4"
    by (simp only: three_quarters)
  have l: "0 \<le> round_real x" using x(1) by (rule round_real_nonneg)
  from u l overflow_ge_1 have "\<bar>round_real x\<bar> < overflow" by linarith
  then have "round64 x = Fin (round_real x)" by (rule round64_finite)
  moreover have "js_div (Fin 2) (js_int (period + 1)) = Fin x"
    using assms by (simp add: js_int_def x_def)
  ultimately have "rounded round64 (js_div (Fin 2) (js_int (period + 1))) = Fin (round_real x)"
    by (simp add: rounded_def)
  with u l show ?thesis by blast
qed

lemma entry_is_double:
  assumes "period - 1 \<le> k" and "k < int (length prices)"
    and "arr_get (calculateEMA_rounded round64 prices period) k = Some (Fin e)"
  shows "round64 e = Fin e"
proof (cases "k = period - 1")
  case True
  with assms(3) show ?thesis
    by (simp add: calculateEMA_rounded_seed rounded_result_double)
next
  case False
  with assms(1) have "period \<le> k" by simp
  from calculateEMA_rounded_recurrence [OF this assms(2), of round64] assms(3)
  show ?thesis
    by (simp add: ema_step_rounded_def rounded_result_double)
qed

lemma overflow_pos: "0 < overflow"
  using overflow_ge_1 by linarith

lemma round64_zero [simp]: "round64 0 = Fin 0"
  using overflow_pos by (simp add: round64_Fin)

lemma round64_of_int: "\<bar>n\<bar> < 2 ^ 53 \<Longrightarrow> round64 (of_int n) = Fin (of_int n)"
  using double_dyadic [of n 0] by simp

lemma round64_small [simp]:
  "round64 1 = Fin 1" "round64 2 = Fin 2" "round64 3 = Fin 3" "round64 4 = Fin 4"
  "round64 6 = Fin 6" "round64 (- 1) = Fin (- 1)"
  using round64_of_int [of 1] round64_of_int [of 2] round64_of_int [of 3]
    round64_of_int [of 4] round64_of_int [of 6] round64_of_int [of "- 1"]
  by simp_all

lemma round64_half [simp]: "round64 (1 / 2) = Fin (1 / 2)"
  using double_dyadic [of 1 "- 1"] by (simp add: power_int_minus)

lemma ema_step_rounded_Fin:
  assumes "round64 (p - e) = Fin d" and "round64 (d * m) = Fin t" and "round64 (t + e) = Fin v"
  shows "ema_step_rounded round64 (Fin m) (Fin p) (Fin e) = Fin v"
  using assms by (simp add: ema_step_rounded_def js_sub_def rounded_def)

lemma sum_loop_rounded_3:
  "sum_loop_rounded rnd [a, b, c, d] 3 0 s
   = rounded rnd (js_add (rounded rnd (js_add (rounded rnd (js_add s a)) b)) c)"
  "sum_loop_rounded rnd [a, b, c, d, e] 3 0 s
   = rounded rnd (js_add (rounded rnd (js_add (rounded rnd (js_add s a)) b)) c)"
  by (simp_all add: sum_loop_rounded.simps list_get_def)

lemma multiplier_3: "rounded round64 (js_div (Fin 2) (js_int 4)) = Fin (1 / 2)"
  by (simp add: js_int_def rounded_def)

subsection \<open>The largest double\<close>

lemma pow_1024: "(2::real) ^ 1024 = 2 ^ 53 * 2 ^ 971"
proof -
  have "(2::real) ^ (53 + 971) = 2 ^ 53 * 2 ^ 971" by (rule power_add)
  moreover have "(53::nat) + 971 = 1024" by simp
  ultimately show ?thesis by (simp only:)
qed

lemma powi_971: "(2::real) powi 971 = 2 ^ 971"
  using power_int_of_nat [of "2::real" 971] by simp

lemma powi_970: "(2::real) powi 970 * 2 = 2 ^ 971"
proof -
  have "(2::real) powi (970 + 1) = 2 powi 970 * 2 powi 1" by (rule pow2_add)
  then show ?thesis by (simp add: powi_971)
qed

lemma max_double_dyadic: "max_double = of_int (2 ^ 53 - 1) * 2 powi 971"
  unfolding max_double_def pow_1024 powi_971 by (simp add: algebra_simps)

lemma half_max_double_dyadic: "max_double / 2 = of_int (2 ^ 53 - 1) * 2 powi 970"
proof -
  have "max_double = of_int (2 ^ 53 - 1) * (2 powi 970 * 2)"
    unfolding powi_970 max_double_dyadic powi_971 ..
  then show ?thesis by simp
qed

lemma max_double_pos: "0 < max_double"
proof -
  have "(0::real) < of_int (2 ^ 53 - 1)" by simp
  moreover have "(0::real) < 2 powi 971" by simp
  ultimately show ?thesis unfolding max_double_dyadic by (rule mult_pos_pos)
qed

lemma round64_max_double: "round64 max_double = Fin max_double"
  unfolding max_double_dyadic by (rule double_dyadic) simp_all

lemma round64_half_max_double: "round64 (max_double / 2) = Fin (max_double / 2)"
  unfolding half_max_double_dyadic by (rule double_dyadic) simp_all

lemma round64_minus_max_double: "round64 (- max_double) = Fin (- max_double)"
proof -
  have "round64 (of_int (- (2 ^ 53 - 1)) * 2 powi 971) = Fin (of_int (- (2 ^ 53 - 1)) * 2 powi 971)"
    by (rule double_dyadic) simp_all
  moreover have "of_int (- (2 ^ 53 - 1)) * 2 powi 971 = - max_double"
    unfolding max_double_dyadic by (simp only: of_int_minus mult_minus_left)
  ultimately show ?thesis by (simp only:)
qed

text \<open>A result at or beyond \<open>-2^1024\<close> rounds to \<open>-Infinity\<close>.\<close>

lemma round64_overflow_down:
  assumes "x \<le> - overflow"
  shows "round64 x = NInf"
proof -
  have "- overflow = of_int (- 1) * 2 powi 1024" by (simp add: overflow_powi)
  moreover have "expo (- overflow) - 52 \<le> 1024"
  proof -
    have "(2::real) powi 1024 < 2 powi (1076 + 1)"
      by (rule power_int_strict_increasing) simp_all
    then have "\<bar>- overflow\<bar> < 2 powi (1076 + 1)"
      using overflow_pos by (simp only: overflow_powi abs_minus_cancel abs_of_pos)
    then have "expo (- overflow) \<le> 1076" by (rule expo_le) simp
    then show ?thesis by simp
  qed
  ultimately have "round_real (- overflow) = - overflow" by (rule round_real_multiple)
  with round_real_mono [OF assms] have "round_real x \<le> - overflow" by (simp only:)
  with overflow_pos show ?thesis by (simp add: round64_def Let_def)
qed

lemma sum_beyond_max_double: "- max_double - max_double / 2 \<le> - overflow"
proof -
  define a :: real where "a = 2 ^ 971"
  have a: "0 < a" by (simp add: a_def)
  have "(3::real) \<le> 2 ^ 53" by simp
  with a have "3 * a \<le> 2 ^ 53 * a" by (simp only: mult_le_cancel_right_pos)
  then have "2 ^ 53 * a \<le> (2 ^ 53 * a - a) * 3 / 2" by (simp add: algebra_simps)
  then show ?thesis unfolding overflow_def max_double_def pow_1024 a_def [symmetric]
    by (simp add: algebra_simps)
qed

subsection \<open>A difference that rounds to the larger operand\<close>

lemma round_even_low:
  assumes "0 \<le> f" and "f < 1 / 2"
  shows "round_even (of_int n + f) = n"
proof -
  have "\<lfloor>of_int n + f\<rfloor> = n" using assms by linarith
  then show ?thesis using assms by (simp add: round_even_def Let_def)
qed

lemma round64_near_minus_one:
  assumes "0 < t" and "t < 2 powi (- 54)"
  shows "round64 (t - 1) = Fin (- 1)"
proof -
  define x where "x = t - 1"
  have t: "t < 1 / 2"
  proof -
    have "(2::real) powi (- 54) \<le> 2 powi (- 1)" by (rule power_int_increasing) simp_all
    with assms(2) show ?thesis by (simp add: power_int_minus)
  qed
  have "expo x = - 1"
  proof (rule expo_eq)
    show "2 powi (- 1) \<le> \<bar>x\<bar>" using assms(1) t by (simp add: x_def power_int_minus)
    show "\<bar>x\<bar> < 2 powi (- 1 + 1)" using assms(1) t by (simp add: x_def)
  qed simp
  then have q: "quantum x = 2 powi (- 53)" by (simp add: quantum_def)
  define f where "f = t * 2 ^ 53"
  have "(2::real) powi (- 54) * 2 powi 53 = 2 powi (- 54 + 53)" by (rule pow2_add [symmetric])
  then have e: "(2::real) powi (- 54) * 2 ^ 53 = 1 / 2" by (simp add: power_int_minus)
  have "t * 2 ^ 53 < 2 powi (- 54) * 2 ^ 53"
    using assms(2) by (rule mult_strict_right_mono) simp
  then have f: "0 \<le> f" "f < 1 / 2" using assms(1) by (simp_all add: f_def e)
  have "x / quantum x = x * 2 ^ 53" unfolding q by (simp add: power_int_minus)
  also have "\<dots> = of_int (- (2 ^ 53)) + f" by (simp add: x_def f_def algebra_simps)
  finally have "round_even (x / quantum x) = - (2 ^ 53)"
    using f by (simp only: round_even_low)
  then have "round_real x = of_int (- (2 ^ 53)) * 2 powi (- 53)"
    unfolding round_real_def q by (simp only:)
  then have r: "round_real x = - 1" by (simp add: power_int_minus)
  have "\<bar>round_real x\<bar> < overflow"
  proof -
    have "(1::real) < 2 ^ 1024" by (rule one_less_power) simp_all
    then show ?thesis unfolding r overflow_def by simp
  qed
  then have "round64 x = Fin (round_real x)" by (rule round64_finite)
  then show ?thesis using r by (simp add: x_def)
qed

lemma tiny:
  "0 < (2::real) powi (- 60)" "(2::real) powi (- 60) < 2 powi (- 54)"
  "round64 (2 powi (- 60)) = Fin (2 powi (- 60))"
proof -
  show "0 < (2::real) powi (- 60)" by simp
  show "(2::real) powi (- 60) < 2 powi (- 54)"
    by (rule power_int_strict_increasing) simp_all
  show "round64 (2 powi (- 60)) = Fin (2 powi (- 60))"
    using double_dyadic [of 1 "- 60"] by simp
qed

subsection \<open>Three runs on doubles\<close>

lemma run_infinite_price:
  "arr_get (calculateEMA_rounded round64 [PInf, Fin 1, Fin 2, Fin 3] 3) 2 = Some PInf"
  "arr_get (calculateEMA_rounded round64 [PInf, Fin 1, Fin 2, Fin 3] 3) 3 = Some NaN"
proof -
  let ?prices = "[PInf, Fin 1, Fin 2, Fin 3]"
  show s: "arr_get (calculateEMA_rounded round64 ?prices 3) 2 = Some PInf"
    using calculateEMA_rounded_seed [of round64 ?prices 3]
    by (simp add: sum_loop_rounded_3 rounded_def js_int_def)
  have "ema_step_rounded round64 (Fin (1 / 2)) (Fin 3) PInf = NaN"
    by (simp add: ema_step_rounded_def js_sub_def rounded_def signed_inf_def)
  then show "arr_get (calculateEMA_rounded round64 ?prices 3) 3 = Some NaN"
    using calculateEMA_rounded_recurrence [of 3 3 ?prices round64] s
    by (simp add: multiplier_3 list_get_def)
qed

lemma run_overflow:
  "arr_get (calculateEMA_rounded round64
      [Fin 0, Fin 0, Fin 0, Fin max_double, Fin (- max_double)] 3) 3 = Some (Fin (max_double / 2))"
  "arr_get (calculateEMA_rounded round64
      [Fin 0, Fin 0, Fin 0, Fin max_double, Fin (- max_double)] 3) 4 = Some NInf"
proof -
  let ?prices = "[Fin 0, Fin 0, Fin 0, Fin max_double, Fin (- max_double)]"
  have s: "arr_get (calculateEMA_rounded round64 ?prices 3) 2 = Some (Fin 0)"
    using calculateEMA_rounded_seed [of round64 ?prices 3]
    by (simp add: sum_loop_rounded_3 rounded_def js_int_def)
  have "ema_step_rounded round64 (Fin (1 / 2)) (Fin max_double) (Fin 0) = Fin (max_double / 2)"
    by (rule ema_step_rounded_Fin [of _ _ max_double _ "max_double / 2"])
      (simp_all add: round64_max_double round64_half_max_double)
  then show t: "arr_get (calculateEMA_rounded round64 ?prices 3) 3 = Some (Fin (max_double / 2))"
    using calculateEMA_rounded_recurrence [of 3 3 ?prices round64] s
    by (simp add: multiplier_3 list_get_def)
  have "round64 (- max_double - max_double / 2) = NInf"
    using sum_beyond_max_double by (rule round64_overflow_down)
  then have "ema_step_rounded round64 (Fin (1 / 2)) (Fin (- max_double)) (Fin (max_double / 2)) = NInf"
    by (simp add: ema_step_rounded_def js_sub_def rounded_def signed_inf_def)
  then show "arr_get (calculateEMA_rounded round64 ?prices 3) 4 = Some NInf"
    using calculateEMA_rounded_recurrence [of 3 4 ?prices round64] t
    by (simp add: multiplier_3 list_get_def)
qed

lemma run_period_1:
  assumes "0 < t" and "t < 2 powi (- 54)"
  shows "arr_get (calculateEMA_rounded round64 [Fin 1, Fin t] 1) 0 = Some (Fin 1)"
    and "arr_get (calculateEMA_rounded round64 [Fin 1, Fin t] 1) 1 = Some (Fin 0)"
proof -
  let ?prices = "[Fin 1, Fin t]"
  have "sum_loop_rounded round64 ?prices 1 0 (Fin 0) = Fin 1"
    by (simp add: sum_loop_rounded.simps list_get_def rounded_def)
  then show s: "arr_get (calculateEMA_rounded round64 ?prices 1) 0 = Some (Fin 1)"
    using calculateEMA_rounded_seed [of round64 ?prices 1]
    by (simp add: rounded_def js_int_def)
  have m: "rounded round64 (js_div (Fin 2) (js_int 2)) = Fin 1"
    by (simp add: js_int_def rounded_def)
  have "round64 (t - 1) = Fin (- 1)"
    using assms by (intro round64_near_minus_one) simp_all
  then have "ema_step_rounded round64 (Fin 1) (Fin t) (Fin 1) = Fin 0"
    by (intro ema_step_rounded_Fin [of _ _ "- 1" _ "- 1"]) simp_all
  then show "arr_get (calculateEMA_rounded round64 ?prices 1) 1 = Some (Fin 0)"
    using calculateEMA_rounded_recurrence [of 1 1 ?prices round64] s
    by (simp add: m list_get_def)
qed

section \<open>The smoothing step\<close>

text \<open>
  Claim C8, as amended. On doubles, for a period of at least 2 and an index \<open>i\<close> with
  \<open>period \<le> i < length\<close> at which \<open>price[i]\<close> is finite, the entry before, \<open>ema[i-1]\<close>, is
  finite, and the difference \<open>price[i] - ema[i-1]\<close> does not overflow, \<open>ema[i]\<close> lies
  between \<open>ema[i-1]\<close> and \<open>price[i]\<close>, inclusive. (A price is a double: \<open>round64 p = Fin p\<close>
  says so of the real \<open>p\<close>.)
\<close>

theorem ema_between:
  assumes "2 \<le> period" and "period \<le> i" and "i < int (length prices)"
    and "list_get prices i = Some (Fin p)" and "round64 p = Fin p"
    and "arr_get (calculateEMA_rounded round64 prices period) (i - 1) = Some (Fin e)"
    and "is_finite (rounded round64 (js_sub (Fin p) (Fin e)))"
  shows "js_between (to_number (arr_get (calculateEMA_rounded round64 prices period) i))
           (Fin e) (Fin p)"
proof -
  from multiplier64 [OF assms(1)] obtain m
    where m: "rounded round64 (js_div (Fin 2) (js_int (period + 1))) = Fin m"
      and mb: "0 \<le> m" "m \<le> 3 / 4" by blast
  have e: "round64 e = Fin e"
    using assms(2,3) by (intro entry_is_double [OF _ _ assms(6)]) simp_all
  from ema_step_between64 [OF assms(5) e mb assms(7)] obtain v
    where v: "ema_step_rounded round64 (Fin m) (Fin p) (Fin e) = Fin v"
      and vb: "min e p \<le> v" "v \<le> max e p" by blast
  have "arr_get (calculateEMA_rounded round64 prices period) i = Some (Fin v)"
    using calculateEMA_rounded_recurrence [OF assms(2,3), of round64]
    by (simp add: m assms(4,6) v)
  with vb show ?thesis
    by (auto simp add: js_between_def js_le_def min_def max_def split: if_splits)
qed

theorem ema_between_witness:
  "(2::int) \<le> 3 \<and> (3::int) \<le> 3 \<and> (3::int) < int (length [Fin 1, Fin 2, Fin 3, Fin 4])
   \<and> list_get [Fin 1, Fin 2, Fin 3, Fin 4] 3 = Some (Fin 4)
   \<and> round64 4 = Fin 4
   \<and> arr_get (calculateEMA_rounded round64 [Fin 1, Fin 2, Fin 3, Fin 4] 3) (3 - 1)
       = Some (Fin 2)
   \<and> is_finite (rounded round64 (js_sub (Fin 4) (Fin 2)))
   \<and> arr_get (calculateEMA_rounded round64 [Fin 1, Fin 2, Fin 3, Fin 4] 3) 3 = Some (Fin 3)
   \<and> js_between (to_number (arr_get (calculateEMA_rounded round64 [Fin 1, Fin 2, Fin 3, Fin 4] 3) 3))
       (Fin 2) (Fin 4)"
proof -
  let ?prices = "[Fin 1, Fin 2, Fin 3, Fin 4]"
  have h1: "(2::int) \<le> 3" and h2: "(3::int) \<le> 3" and h3: "(3::int) < int (length ?prices)"
    by simp_all
  have h4: "list_get ?prices 3 = Some (Fin 4)" by (simp add: list_get_def)
  have h5: "round64 4 = Fin 4" by simp
  have h6: "arr_get (calculateEMA_rounded round64 ?prices 3) (3 - 1) = Some (Fin 2)"
    using calculateEMA_rounded_seed [of round64 ?prices 3]
    by (simp add: sum_loop_rounded_3 rounded_def js_int_def)
  have h7: "is_finite (rounded round64 (js_sub (Fin 4) (Fin 2)))"
    by (simp add: js_sub_def rounded_def is_finite_def)
  have "ema_step_rounded round64 (Fin (1 / 2)) (Fin 4) (Fin 2) = Fin 3"
    by (rule ema_step_rounded_Fin [of _ _ 2 _ 1]) simp_all
  with h6 have v: "arr_get (calculateEMA_rounded round64 ?prices 3) 3 = Some (Fin 3)"
    using calculateEMA_rounded_recurrence [OF h2 h3, of round64]
    by (simp add: multiplier_3 h4)
  from ema_between [OF h1 h2 h3 h4 h5 h6 h7] h1 h2 h3 h4 h5 h6 h7 v show ?thesis
    by blast
qed

text \<open>
  The claim as stated asks only for a finite \<open>price[i]\<close>. Three runs on doubles show what
  it leaves out. With the prices \<open>Infinity, 1, 2, 3\<close> and the period 3 the seed is
  \<open>Infinity\<close> and the entry at index 3 is \<open>-Infinity + Infinity\<close>, that is NaN. With the
  prices \<open>0, 0, 0, M, -M\<close>, \<open>M\<close> the largest double, and the period 3, every price and
  the entry \<open>M / 2\<close> at index 3 are finite, the difference \<open>-M - M / 2\<close> overflows, and the
  entry at index 4 is \<open>-Infinity\<close>. With the prices \<open>1, 2^-60\<close> and the period 1 the
  multiplier is 1, the difference \<open>2^-60 - 1\<close> rounds to \<open>-1\<close>, and the entry at index 1
  is 0, which is below both 1 and \<open>2^-60\<close>.
\<close>

theorem ema_between_counterexample:
  "((3::int) \<le> 3 \<and> (3::int) < int (length [PInf, Fin 1, Fin 2, Fin 3])
    \<and> list_get [PInf, Fin 1, Fin 2, Fin 3] 3 = Some (Fin 3) \<and> round64 3 = Fin 3
    \<and> arr_get (calculateEMA_rounded round64 [PInf, Fin 1, Fin 2, Fin 3] 3) (3 - 1) = Some PInf
    \<and> arr_get (calculateEMA_rounded round64 [PInf, Fin 1, Fin 2, Fin 3] 3) 3 = Some NaN
    \<and> \<not> js_between
          (to_number (arr_get (calculateEMA_rounded round64 [PInf, Fin 1, Fin 2, Fin 3] 3) 3))
          (to_number (arr_get (calculateEMA_rounded round64 [PInf, Fin 1, Fin 2, Fin 3] 3) (3 - 1)))
          (to_number (list_get [PInf, Fin 1, Fin 2, Fin 3] 3)))
   \<and> ((3::int) \<le> 4
    \<and> (4::int) < int (length [Fin 0, Fin 0, Fin 0, Fin max_double, Fin (- max_double)])
    \<and> list_get [Fin 0, Fin 0, Fin 0, Fin max_double, Fin (- max_double)] 4
        = Some (Fin (- max_double))
    \<and> round64 (- max_double) = Fin (- max_double)
    \<and> arr_get (calculateEMA_rounded round64
          [Fin 0, Fin 0, Fin 0, Fin max_double, Fin (- max_double)] 3) (4 - 1)
        = Some (Fin (max_double / 2))
    \<and> rounded round64 (js_sub (Fin (- max_double)) (Fin (max_double / 2))) = NInf
    \<and> arr_get (calculateEMA_rounded round64
          [Fin 0, Fin 0, Fin 0, Fin max_double, Fin (- max_double)] 3) 4 = Some NInf
    \<and> \<not> js_between
          (to_number (arr_get (calculateEMA_rounded round64
             [Fin 0, Fin 0, Fin 0, Fin max_double, Fin (- max_double)] 3) 4))
          (to_number (arr_get (calculateEMA_rounded round64
             [Fin 0, Fin 0, Fin 0, Fin max_double, Fin (- max_double)] 3) (4 - 1)))
          (to_number (list_get [Fin 0, Fin 0, Fin 0, Fin max_double, Fin (- max_double)] 4)))
   \<and> ((1::int) \<le> 1 \<and> (1::int) < int (length [Fin 1, Fin (2 powi (- 60))])
    \<and> list_get [Fin 1, Fin (2 powi (- 60))] 1 = Some (Fin (2 powi (- 60)))
    \<and> round64 (2 powi (- 60)) = Fin (2 powi (- 60))
    \<and> arr_get (calculateEMA_rounded round64 [Fin 1, Fin (2 powi (- 60))] 1) (1 - 1)
        = Some (Fin 1)
    \<and> rounded round64 (js_sub (Fin (2 powi (- 60))) (Fin 1)) = Fin (- 1)
    \<and> arr_get (calculateEMA_rounded round64 [Fin 1, Fin (2 powi (- 60))] 1) 1 = Some (Fin 0)
    \<and> \<not> js_between
          (to_number (arr_get (calculateEMA_rounded round64 [Fin 1, Fin (2 powi (- 60))] 1) 1))
          (to_number (arr_get (calculateEMA_rounded round64 [Fin 1, Fin (2 powi (- 60))] 1) (1 - 1)))
          (to_number (list_get [Fin 1, Fin (2 powi (- 60))] 1)))"
proof -
  have a: "(3::int) \<le> 3 \<and> (3::int) < int (length [PInf, Fin 1, Fin 2, Fin 3])
    \<and> list_get [PInf, Fin 1, Fin 2, Fin 3] 3 = Some (Fin 3) \<and> round64 3 = Fin 3
    \<and> arr_get (calculateEMA_rounded round64 [PInf, Fin 1, Fin 2, Fin 3] 3) (3 - 1) = Some PInf
    \<and> arr_get (calculateEMA_rounded round64 [PInf, Fin 1, Fin 2, Fin 3] 3) 3 = Some NaN
    \<and> \<not> js_between
          (to_number (arr_get (calculateEMA_rounded round64 [PInf, Fin 1, Fin 2, Fin 3] 3) 3))
          (to_number (arr_get (calculateEMA_rounded round64 [PInf, Fin 1, Fin 2, Fin 3] 3) (3 - 1)))
          (to_number (list_get [PInf, Fin 1, Fin 2, Fin 3] 3))"
    by (simp add: run_infinite_price list_get_def js_between_def js_le_def)
  have "rounded round64 (js_sub (Fin (- max_double)) (Fin (max_double / 2))) = NInf"
    using round64_overflow_down [OF sum_beyond_max_double]
    by (simp add: js_sub_def rounded_def)
  then have b: "(3::int) \<le> 4
    \<and> (4::int) < int (length [Fin 0, Fin 0, Fin 0, Fin max_double, Fin (- max_double)])
    \<and> list_get [Fin 0, Fin 0, Fin 0, Fin max_double, Fin (- max_double)] 4
        = Some (Fin (- max_double))
    \<and> round64 (- max_double) = Fin (- max_double)
    \<and> arr_get (calculateEMA_rounded round64
          [Fin 0, Fin 0, Fin 0, Fin max_double, Fin (- max_double)] 3) (4 - 1)
        = Some (Fin (max_double / 2))
    \<and> rounded round64 (js_sub (Fin (- max_double)) (Fin (max_double / 2))) = NInf
    \<and> arr_get (calculateEMA_rounded round64
          [Fin 0, Fin 0, Fin 0, Fin max_double, Fin (- max_double)] 3) 4 = Some NInf
    \<and> \<not> js_between
          (to_number (arr_get (calculateEMA_rounded round64
             [Fin 0, Fin 0, Fin 0, Fin max_double, Fin (- max_double)] 3) 4))
          (to_number (arr_get (calculateEMA_rounded round64
             [Fin 0, Fin 0, Fin 0, Fin max_double, Fin (- max_double)] 3) (4 - 1)))
          (to_number (list_get [Fin 0, Fin 0, Fin 0, Fin max_double, Fin (- max_double)] 4))"
    by (simp add: run_overflow round64_minus_max_double list_get_def js_between_def js_le_def)
  have "rounded round64 (js_sub (Fin (2 powi (- 60))) (Fin 1)) = Fin (- 1)"
    using round64_near_minus_one [of "2 powi (- 60)"] tiny(2)
    by (simp add: js_sub_def rounded_def)
  then have c: "(1::int) \<le> 1 \<and> (1::int) < int (length [Fin 1, Fin (2 powi (- 60))])
    \<and> list_get [Fin 1, Fin (2 powi (- 60))] 1 = Some (Fin (2 powi (- 60)))
    \<and> round64 (2 powi (- 60)) = Fin (2 powi (- 60))
    \<and> arr_get (calculateEMA_rounded round64 [Fin 1, Fin (2 powi (- 60))] 1) (1 - 1)
        = Some (Fin 1)
    \<and> rounded round64 (js_sub (Fin (2 powi (- 60))) (Fin 1)) = Fin (- 1)
    \<and> arr_get (calculateEMA_rounded round64 [Fin 1, Fin (2 powi (- 60))] 1) 1 = Some (Fin 0)
    \<and> \<not> js_between
          (to_number (arr_get (calculateEMA_rounded round64 [Fin 1, Fin (2 powi (- 60))] 1) 1))
          (to_number (arr_get (calculateEMA_rounded round64 [Fin 1, Fin (2 powi (- 60))] 1) (1 - 1)))
          (to_number (list_get [Fin 1, Fin (2 powi (- 60))] 1))"
    using run_period_1 [OF tiny(1,2)] tiny(1,3)
    by (simp add: list_get_def js_between_def js_le_def)
  show ?thesis by (rule conjI [OF a conjI [OF b c]])
qed

section \<open>The test double, evaluated\<close>

text \<open>
  On a constant series of at least 50 prices every entry of the EMA, and so the current
  EMA, is that constant.
\<close>

lemma foldl_js_add_replicate:
  "foldl js_add (Fin a) (replicate n (Fin c)) = Fin (a + real n * c)"
  by (induction n arbitrary: a) (simp_all add: algebra_simps)

lemma constant_series:
  assumes "49 \<le> k" and "k < int n"
  shows "arr_get (calculateEMA (replicate n (Fin c)) 50) k = Some (Fin c)"
  using assms
proof (induction k rule: int_ge_induct)
  case base
  then have "take 50 (replicate n (Fin c)) = replicate 50 (Fin c)" by simp
  with base show ?case
    using calculateEMA_seed [of "replicate n (Fin c)" 50]
    by (simp add: js_sum_def js_int_def foldl_js_add_replicate)
next
  case (step j)
  then have prev: "arr_get (calculateEMA (replicate n (Fin c)) 50) j = Some (Fin c)" by simp
  from step have "0 \<le> j + 1" "j + 1 < int n" by simp_all
  then have p: "list_get (replicate n (Fin c)) (j + 1) = Some (Fin c)"
    by (simp add: list_get_def)
  from step show ?case
    using calculateEMA_recurrence [of 50 "j + 1" "replicate n (Fin c)"]
    by (simp add: prev p ema_step_def js_sub_def js_int_def)
qed

lemma current_ema_constant:
  assumes "50 \<le> n"
  shows "current_ema (replicate n (Fin c)) = Fin c"
proof -
  have "arr_length (calculateEMA (replicate n (Fin c)) 50) = n"
    using assms by (simp add: calculateEMA_length)
  then show ?thesis
    using assms constant_series [of "int n - 1" n c]
    by (simp add: current_ema_def Let_def)
qed

lemma filter_present_replicate:
  "map the (filter (\<lambda>price. price \<noteq> None) (replicate n (Some x))) = replicate n x"
  by (induction n) simp_all

lemma example_A:
  "loop_body example_yahoo ''A'' (acc, k) w
   = ((acc @ [\<lparr>symbol = ''A'', name = ''Example Ltd'', exchange = ''NSE'',
               open_price = Fin 9, high = Fin 11, low = Fin 9, close = Fin 11,
               volume = Fin 1000, date = ''2025-09-10'', ema50 = Fin 10,
               qualifies = True\<rparr>], k + 1), w + 2)"
  by (simp add: fetchStockFromYahoo_def fetchHistoricalPrices_def example_yahoo_def
        yahoo_symbol_def example_bar_def example_history_def filter_present_replicate
        current_ema_constant qualify_def or_else_def or_zero_def quote_get_def
        js_gt_def StockData.extend_def StockWithEMA.fields_def)

lemma example_B:
  "loop_body example_yahoo ''B'' (acc, k) w
   = ((acc @ [\<lparr>symbol = ''B'', name = ''Example Ltd'', exchange = ''NSE'',
               open_price = Fin 10, high = Fin 11, low = Fin 10, close = Fin 11,
               volume = Fin 1000, date = ''2025-09-10'', ema50 = Fin 10,
               qualifies = False\<rparr>], k + 1), w + 2)"
  by (simp add: fetchStockFromYahoo_def fetchHistoricalPrices_def example_yahoo_def
        yahoo_symbol_def example_bar_def example_history_def filter_present_replicate
        current_ema_constant qualify_def or_else_def or_zero_def quote_get_def
        js_gt_def StockData.extend_def StockWithEMA.fields_def)

lemma example_C: "loop_body example_yahoo ''C'' (acc, k) w = ((acc, k), w + 1)"
  by (simp add: fetchStockFromYahoo_def example_yahoo_def yahoo_symbol_def)

lemma example_D: "loop_body example_yahoo ''D'' (acc, k) w = ((acc, k), w + 2)"
  by (simp add: fetchStockFromYahoo_def fetchHistoricalPrices_def example_yahoo_def
        yahoo_symbol_def example_bar_def example_history_def filter_present_replicate)


section \<open>The batch\<close>

lemma qualify_simps [simp]:
  "symbol (qualify d e) = symbol d"
  "name (qualify d e) = name d"
  "exchange (qualify d e) = exchange d"
  "date (qualify d e) = date d"
  "low (qualify d e) = low d"
  "close (qualify d e) = close d"
  "ema50 (qualify d e) = e"
  "qualifies (qualify d e) = (js_lt (low d) e \<and> js_gt (close d) e)"
  by (simp_all add: qualify_def StockData.extend_def StockWithEMA.fields_def)

lemma js_lt_irrefl [simp]: "\<not> js_lt x x"
  by (cases x) simp_all

lemma fetchStockFromYahoo_symbol:
  "fetchStockFromYahoo Y symb w = (Some d, w') \<Longrightarrow> symbol d = symb"
  by (auto simp add: fetchStockFromYahoo_def Let_def
      split: prod.splits sum.splits option.splits)

lemma fetchStockFromYahoo_exchange:
  "fetchStockFromYahoo Y symb w = (Some d, w') \<Longrightarrow> exchange d = ''BSE'' \<or> exchange d = ''NSE''"
  by (auto simp add: fetchStockFromYahoo_def Let_def
      split: prod.splits sum.splits option.splits if_splits)

text \<open>A pass of the loop body appends at most one record, whatever the accumulators.\<close>

lemma loop_body_acc:
  "loop_body Y symb (acc, n) w =
   (case loop_body Y symb ([], 0) w of ((new, k), w') \<Rightarrow> ((acc @ new, n + k), w'))"
  by (simp split: prod.splits option.splits)

lemma loop_body_new:
  assumes "loop_body Y symb ([], 0) w = ((new, k), w')"
  shows "k = length new \<and> (new = [] \<or> (\<exists>d e. new = [qualify d e] \<and> symbol d = symb))"
  using assms
  by (auto split: prod.splits option.splits if_splits dest: fetchStockFromYahoo_symbol)

lemma execute_loop_acc:
  "execute_loop Y syms (acc, n) w =
   (case execute_loop Y syms ([], 0) w of ((new, k), w') \<Rightarrow> ((acc @ new, n + k), w'))"
proof (induction syms arbitrary: acc n w)
  case Nil
  show ?case by simp
next
  case (Cons s syms)
  obtain new k w1 where b: "loop_body Y s ([], 0) w = ((new, k), w1)"
    by (metis surj_pair)
  obtain new' k' w2 where r: "execute_loop Y syms ([], 0) w1 = ((new', k'), w2)"
    by (metis surj_pair)
  have "execute_loop Y (s # syms) (acc, n) w = execute_loop Y syms (acc @ new, n + k) w1"
    using b by (simp add: loop_body_acc [of Y s acc n w] del: loop_body.simps)
  also have "\<dots> = (((acc @ new) @ new', (n + k) + k'), w2)"
    using r by (simp add: Cons.IH [of "acc @ new" "n + k" w1])
  finally have lhs: "execute_loop Y (s # syms) (acc, n) w = ((acc @ new @ new', n + k + k'), w2)"
    by simp
  have "execute_loop Y (s # syms) ([], 0) w = execute_loop Y syms (new, k) w1"
    using b by (simp del: loop_body.simps)
  also have "\<dots> = ((new @ new', k + k'), w2)"
    using r by (simp add: Cons.IH [of new k w1])
  finally show ?case using lhs by simp
qed

lemma execute_loop_append:
  "execute_loop Y (xs @ ys) acc w =
   (case execute_loop Y xs acc w of (acc', w') \<Rightarrow> execute_loop Y ys acc' w')"
  by (induction xs arbitrary: acc w) (simp_all split: prod.splits del: loop_body.simps)

text \<open>The records of a run, in terms of the records of the first symbol and of the rest.\<close>

lemma execute_loop_Cons:
  assumes "loop_body Y s ([], 0) w = ((new, k), w1)"
    and "execute_loop Y syms ([], 0) w1 = ((new', k'), w2)"
  shows "execute_loop Y (s # syms) ([], 0) w = ((new @ new', k + k'), w2)"
  using assms by (simp add: execute_loop_acc [of Y syms new k w1] del: loop_body.simps)

lemma execute_loop_records:
  assumes "execute_loop Y syms ([], 0) w = ((new, k), w')"
  shows "k = length new \<and> subseq (map symbol new) syms
         \<and> (\<forall>r\<in>set new. qualifies r = (js_lt (low r) (ema50 r) \<and> js_gt (close r) (ema50 r)))"
  using assms
proof (induction syms arbitrary: new k w w')
  case Nil
  then show ?case by simp
next
  case (Cons s syms)
  obtain n1 k1 w1 where b: "loop_body Y s ([], 0) w = ((n1, k1), w1)"
    by (metis surj_pair)
  obtain n2 k2 w2 where r: "execute_loop Y syms ([], 0) w1 = ((n2, k2), w2)"
    by (metis surj_pair)
  from execute_loop_Cons [OF b r] Cons.prems
  have eq: "new = n1 @ n2" "k = k1 + k2" by simp_all
  note ih = Cons.IH [OF r]
  from loop_body_new [OF b] have k1: "k1 = length n1"
    and n1: "n1 = [] \<or> (\<exists>d e. n1 = [qualify d e] \<and> symbol d = s)" by simp_all
  from n1 show ?case
  proof
    assume "n1 = []"
    with eq k1 ih show ?thesis by (simp add: list_emb_Cons)
  next
    assume "\<exists>d e. n1 = [qualify d e] \<and> symbol d = s"
    then obtain d e where "n1 = [qualify d e]" "symbol d = s" by blast
    with eq k1 ih show ?thesis by simp
  qed
qed

lemma execute_stocks:
  "execute_loop Y syms ([], 0) w = ((new, k), w') \<Longrightarrow>
   execute Y syms w = (\<lparr>totalStocks = length new, qualifyingStocks = length (filter qualifies new),
                        stocks = new\<rparr>, w')"
  by (simp add: execute_def)

lemma foldl_push:
  "foldl (\<lambda>rows x. rows @ [f x]) acc xs = acc @ map f xs"
  by (induction xs arbitrary: acc) simp_all

lemma csv_rows_eq:
  "csv_rows F stks
   = join [comma] headers # map (\<lambda>stock. join [comma] (csv_row F stock)) (filter qualifies stks)"
  by (simp add: csv_rows_def Let_def foldl_push)

lemma execute_report:
  obtains new w' where "execute_loop Y syms ([], 0) w = ((new, length new), w')"
    and "execute Y syms w = (\<lparr>totalStocks = length new,
                               qualifyingStocks = length (filter qualifies new),
                               stocks = new\<rparr>, w')"
    and "subseq (map symbol new) syms"
    and "\<forall>r\<in>set new. qualifies r = (js_lt (low r) (ema50 r) \<and> js_gt (close r) (ema50 r))"
proof -
  obtain new k w' where r: "execute_loop Y syms ([], 0) w = ((new, k), w')"
    by (metis surj_pair)
  from execute_loop_records [OF r] execute_stocks [OF r] r that show thesis by blast
qed

lemma example_run_AB:
  "execute example_yahoo [''A'', ''B''] 0
   = (\<lparr>totalStocks = 2, qualifyingStocks = 1,
       stocks = [\<lparr>symbol = ''A'', name = ''Example Ltd'', exchange = ''NSE'',
                  open_price = Fin 9, high = Fin 11, low = Fin 9, close = Fin 11,
                  volume = Fin 1000, date = ''2025-09-10'', ema50 = Fin 10,
                  qualifies = True\<rparr>,
                 \<lparr>symbol = ''B'', name = ''Example Ltd'', exchange = ''NSE'',
                  open_price = Fin 10, high = Fin 11, low = Fin 10, close = Fin 11,
                  volume = Fin 1000, date = ''2025-09-10'', ema50 = Fin 10,
                  qualifies = False\<rparr>]\<rparr>, 4)"
  by (simp add: execute_def example_A example_B del: loop_body.simps)

lemma example_run_A:
  "execute example_yahoo [''A''] 0
   = (\<lparr>totalStocks = 1, qualifyingStocks = 1,
       stocks = [\<lparr>symbol = ''A'', name = ''Example Ltd'', exchange = ''NSE'',
                  open_price = Fin 9, high = Fin 11, low = Fin 9, close = Fin 11,
                  volume = Fin 1000, date = ''2025-09-10'', ema50 = Fin 10,
                  qualifies = True\<rparr>]\<rparr>, 2)"
  by (simp add: execute_def example_A del: loop_body.simps)

lemma example_run_B:
  "execute example_yahoo [''B''] w
   = (\<lparr>totalStocks = 1, qualifyingStocks = 0,
       stocks = [\<lparr>symbol = ''B'', name = ''Example Ltd'', exchange = ''NSE'',
                  open_price = Fin 10, high = Fin 11, low = Fin 10, close = Fin 11,
                  volume = Fin 1000, date = ''2025-09-10'', ema50 = Fin 10,
                  qualifies = False\<rparr>]\<rparr>, w + 2)"
  by (simp add: execute_def example_B del: loop_body.simps)





text \<open>
  Claim C1. For every latest bar and EMA value, the record qualifies exactly when the
  low is below the EMA and the close is above it, both strictly: a bar whose low equals
  the EMA, or whose close equals it, does not qualify. On finite values the rule is the
  strict order of the reals. Every record of a report carries the flag the rule gives on
  its own low, close and EMA.
\<close>

theorem qualification_rule:
  "qualifies (qualify bar ema) = (js_lt (low bar) ema \<and> js_gt (close bar) ema)
   \<and> \<not> qualifies (qualify (bar\<lparr>low := ema\<rparr>) ema)
   \<and> \<not> qualifies (qualify (bar\<lparr>close := ema\<rparr>) ema)
   \<and> qualifies (qualify (bar\<lparr>low := Fin l, close := Fin c\<rparr>) (Fin e)) = (l < e \<and> e < c)
   \<and> (\<forall>r\<in>set (stocks (fst (execute Y symbols w))).
         qualifies r = (js_lt (low r) (ema50 r) \<and> js_gt (close r) (ema50 r)))"
proof -
  obtain new w' where "execute Y symbols w
      = (\<lparr>totalStocks = length new, qualifyingStocks = length (filter qualifies new),
          stocks = new\<rparr>, w')"
    and "\<forall>r\<in>set new. qualifies r = (js_lt (low r) (ema50 r) \<and> js_gt (close r) (ema50 r))"
    by (rule execute_report)
  then show ?thesis by (simp add: js_gt_def)
qed

theorem qualification_rule_witness:
  "map qualifies (stocks (fst (execute example_yahoo [''A'', ''B''] 0))) = [True, False]
   \<and> map (\<lambda>r. js_lt (low r) (ema50 r) \<and> js_gt (close r) (ema50 r))
         (stocks (fst (execute example_yahoo [''A'', ''B''] 0))) = [True, False]"
proof -
  let ?R = "stocks (fst (execute example_yahoo [''A'', ''B''] 0))"
  from qualification_rule [where Y = example_yahoo and symbols = "[''A'', ''B'']" and w = 0]
  have "\<forall>r\<in>set ?R. qualifies r = (js_lt (low r) (ema50 r) \<and> js_gt (close r) (ema50 r))"
    by blast
  then have "map qualifies ?R
             = map (\<lambda>r. js_lt (low r) (ema50 r) \<and> js_gt (close r) (ema50 r)) ?R"
    by (intro map_cong) simp_all
  moreover have "map qualifies ?R = [True, False]" by (simp add: example_run_AB)
  ultimately show ?thesis by simp
qed

text \<open>
  Claim C4, as amended. In every report \<open>totalStocks\<close> is at least
  \<open>qualifyingStocks\<close>; \<open>totalStocks\<close> is the length of the \<open>stocks\<close> sequence, which
  holds every analysed record, qualifying or not; \<open>qualifyingStocks\<close> is the number of
  qualifying records in that same sequence; and the rows the serialiser writes for it
  are those of the qualifying records only.
\<close>

theorem report_counts:
  "qualifyingStocks (fst (execute Y symbols w)) \<le> totalStocks (fst (execute Y symbols w))
   \<and> totalStocks (fst (execute Y symbols w)) = length (stocks (fst (execute Y symbols w)))
   \<and> qualifyingStocks (fst (execute Y symbols w))
       = length (filter qualifies (stocks (fst (execute Y symbols w))))
   \<and> tl (csv_rows F (stocks (fst (execute Y symbols w))))
       = map (\<lambda>stock. join [comma] (csv_row F stock))
           (filter qualifies (stocks (fst (execute Y symbols w))))"
proof -
  obtain new w' where "execute Y symbols w
      = (\<lparr>totalStocks = length new, qualifyingStocks = length (filter qualifies new),
          stocks = new\<rparr>, w')"
    by (rule execute_report)
  then show ?thesis by (simp add: csv_rows_eq)
qed

theorem report_counts_witness:
  "qualifyingStocks (fst (execute example_yahoo [''A'', ''B''] 0))
     \<le> totalStocks (fst (execute example_yahoo [''A'', ''B''] 0))
   \<and> totalStocks (fst (execute example_yahoo [''A'', ''B''] 0)) = 2
   \<and> length (stocks (fst (execute example_yahoo [''A'', ''B''] 0))) = 2
   \<and> qualifyingStocks (fst (execute example_yahoo [''A'', ''B''] 0)) = 1
   \<and> length (filter qualifies (stocks (fst (execute example_yahoo [''A'', ''B''] 0)))) = 1"
  using report_counts [of example_yahoo "[''A'', ''B'']" 0 example_format]
  by (simp add: example_run_AB)

text \<open>
  The claim as stated takes the report's sequence to hold the qualifying records only.
  In the scenario of the specification (\<open>A\<close> qualifies, \<open>B\<close> does not) the report has
  \<open>qualifyingStocks = 1\<close> and a \<open>stocks\<close> sequence of length 2, whose second record does
  not qualify.
\<close>

theorem report_counts_counterexample:
  "qualifyingStocks (fst (execute example_yahoo [''A'', ''B''] 0))
     \<noteq> length (stocks (fst (execute example_yahoo [''A'', ''B''] 0)))
   \<and> \<not> qualifies (stocks (fst (execute example_yahoo [''A'', ''B''] 0)) ! 1)
   \<and> totalStocks (fst (execute example_yahoo [''A'', ''B''] 0)) = 2
   \<and> qualifyingStocks (fst (execute example_yahoo [''A'', ''B''] 0)) = 1
   \<and> map symbol (stocks (fst (execute example_yahoo [''A'', ''B''] 0))) = [''A'', ''B'']"
  by (simp add: example_run_AB)

section \<open>Skipped symbols\<close>

lemma failed_request_is_null:
  "(\<exists>e. fst (latest_chart Y (yahoo_symbol symb) w) = Inl e)
     \<or> fst (latest_chart Y (yahoo_symbol symb) w) = Inr None
   \<Longrightarrow> fst (fetchStockFromYahoo Y symb w) = None"
  by (auto simp add: fetchStockFromYahoo_def split: prod.splits sum.splits option.splits)

lemma failed_history_is_empty:
  "(\<exists>e. fst (history_chart Y (yahoo_symbol symb) days w) = Inl e)
     \<or> fst (history_chart Y (yahoo_symbol symb) days w) = Inr None
   \<Longrightarrow> fst (fetchHistoricalPrices Y symb days w) = []"
  by (auto simp add: fetchHistoricalPrices_def split: prod.splits sum.splits option.splits)

lemma loop_body_skip:
  assumes "fst (fetchStockFromYahoo Y symb w) = None
           \<or> length (fst (fetchHistoricalPrices Y symb 100 (snd (fetchStockFromYahoo Y symb w)))) < 50"
  shows "fst (loop_body Y symb acc w) = acc"
  using assms by (cases acc) (auto split: prod.splits option.splits)

lemma loop_body_world:
  "snd (loop_body Y symb acc w) = snd (loop_body Y symb ([], 0) w)"
  by (cases acc) (simp split: prod.splits option.splits)

lemma execute_around_skip:
  assumes skip: "\<And>acc. fst (loop_body Y symb acc w) = acc"
    and pre: "snd (execute Y pre w0) = w"
  shows "stocks (fst (execute Y (pre @ symb # post) w0))
         = stocks (fst (execute Y pre w0))
           @ stocks (fst (execute Y post (snd (loop_body Y symb acc w))))"
proof -
  obtain n1 w1 where l1: "execute_loop Y pre ([], 0) w0 = ((n1, length n1), w1)"
    and e1: "execute Y pre w0 = (\<lparr>totalStocks = length n1,
               qualifyingStocks = length (filter qualifies n1), stocks = n1\<rparr>, w1)"
    by (rule execute_report)
  from e1 pre have w1: "w1 = w" by simp
  let ?w2 = "snd (loop_body Y symb acc w)"
  have b: "loop_body Y symb (n1, length n1) w = ((n1, length n1), ?w2)"
    using skip [of "(n1, length n1)"] loop_body_world [of Y symb "(n1, length n1)" w]
      loop_body_world [of Y symb acc w]
    by (metis prod.collapse)
  obtain n3 w3 where l3: "execute_loop Y post ([], 0) ?w2 = ((n3, length n3), w3)"
    and e3: "execute Y post ?w2 = (\<lparr>totalStocks = length n3,
               qualifyingStocks = length (filter qualifies n3), stocks = n3\<rparr>, w3)"
    by (rule execute_report)
  have "execute_loop Y (pre @ symb # post) ([], 0) w0
        = execute_loop Y post (n1, length n1) ?w2"
    using l1 w1 b by (simp add: execute_loop_append del: loop_body.simps)
  also have "\<dots> = ((n1 @ n3, length n1 + length n3), w3)"
    using l3 by (simp add: execute_loop_acc [of Y post n1 "length n1"])
  finally have "stocks (fst (execute Y (pre @ symb # post) w0)) = n1 @ n3"
    by (simp add: execute_def)
  with e1 e3 show ?thesis by simp
qed

text \<open>
  Claim C5. Let the batch reach the symbol \<open>symb\<close> in the state \<open>w\<close>, after the symbols
  \<open>pre\<close>. If the request for its latest bar throws or yields no data, or
  \<open>fetchStockFromYahoo\<close> returns \<open>null\<close> for another reason, or its history has fewer
  than 50 prices, then the pass of the loop body leaves the accumulators as they are,
  and the report of the whole batch has the records of \<open>pre\<close> followed by the records
  of the remaining symbols \<open>post\<close>, with \<open>totalStocks\<close> the sum of the two counts: the
  symbol adds nothing, and the rest is processed. A thrown error is a value that the
  fetch functions turn into \<open>null\<close> or the empty history; \<open>execute\<close> returns a report
  in every case.
\<close>

theorem skipped_symbol:
  assumes "(\<exists>e. fst (latest_chart Y (yahoo_symbol symb) w) = Inl e)
           \<or> fst (latest_chart Y (yahoo_symbol symb) w) = Inr None
           \<or> fst (fetchStockFromYahoo Y symb w) = None
           \<or> length (fst (fetchHistoricalPrices Y symb 100
                              (snd (fetchStockFromYahoo Y symb w)))) < 50"
    and "snd (execute Y pre w0) = w"
  shows "fst (loop_body Y symb acc w) = acc
         \<and> stocks (fst (execute Y (pre @ symb # post) w0))
             = stocks (fst (execute Y pre w0))
               @ stocks (fst (execute Y post (snd (loop_body Y symb acc w))))
         \<and> totalStocks (fst (execute Y (pre @ symb # post) w0))
             = totalStocks (fst (execute Y pre w0))
               + totalStocks (fst (execute Y post (snd (loop_body Y symb acc w))))"
proof -
  from assms(1) have c: "fst (fetchStockFromYahoo Y symb w) = None
      \<or> length (fst (fetchHistoricalPrices Y symb 100 (snd (fetchStockFromYahoo Y symb w)))) < 50"
    using failed_request_is_null [of Y symb w] by blast
  then have skip: "fst (loop_body Y symb a w) = a" for a
    by (rule loop_body_skip)
  have s: "stocks (fst (execute Y (pre @ symb # post) w0))
             = stocks (fst (execute Y pre w0))
               @ stocks (fst (execute Y post (snd (loop_body Y symb acc w))))"
    using skip assms(2) by (rule execute_around_skip)
  have t: "totalStocks (fst (execute Y syms v)) = length (stocks (fst (execute Y syms v)))"
    for syms v
    by (simp add: execute_def split: prod.splits)
  from skip s show ?thesis by (simp add: t)
qed

theorem skipped_symbol_witness:
  "fst (latest_chart example_yahoo (yahoo_symbol ''C'') 2) = Inl NetworkError
   \<and> map symbol (stocks (fst (execute example_yahoo ([''A''] @ ''C'' # [''B'']) 0))) = [''A'', ''B'']
   \<and> totalStocks (fst (execute example_yahoo ([''A''] @ ''C'' # [''B'']) 0)) = 2
   \<and> length (fst (fetchHistoricalPrices example_yahoo ''D'' 100
                     (snd (fetchStockFromYahoo example_yahoo ''D'' 2)))) = 30
   \<and> map symbol (stocks (fst (execute example_yahoo ([''A''] @ ''D'' # [''B'']) 0))) = [''A'', ''B'']
   \<and> totalStocks (fst (execute example_yahoo ([''A''] @ ''D'' # [''B'']) 0)) = 2"
proof -
  have pre: "snd (execute example_yahoo [''A''] 0) = 2" by (simp add: example_run_A)
  have c: "fst (latest_chart example_yahoo (yahoo_symbol ''C'') 2) = Inl NetworkError"
    by (simp add: example_yahoo_def yahoo_symbol_def)
  then have hc: "(\<exists>e. fst (latest_chart example_yahoo (yahoo_symbol ''C'') 2) = Inl e)
           \<or> fst (latest_chart example_yahoo (yahoo_symbol ''C'') 2) = Inr None
           \<or> fst (fetchStockFromYahoo example_yahoo ''C'' 2) = None
           \<or> length (fst (fetchHistoricalPrices example_yahoo ''C'' 100
                              (snd (fetchStockFromYahoo example_yahoo ''C'' 2)))) < 50"
    by blast
  have d: "length (fst (fetchHistoricalPrices example_yahoo ''D'' 100
                     (snd (fetchStockFromYahoo example_yahoo ''D'' 2)))) = 30"
    by (simp add: fetchHistoricalPrices_def example_yahoo_def yahoo_symbol_def
          example_history_def filter_present_replicate)
  then have hd: "(\<exists>e. fst (latest_chart example_yahoo (yahoo_symbol ''D'') 2) = Inl e)
           \<or> fst (latest_chart example_yahoo (yahoo_symbol ''D'') 2) = Inr None
           \<or> fst (fetchStockFromYahoo example_yahoo ''D'' 2) = None
           \<or> length (fst (fetchHistoricalPrices example_yahoo ''D'' 100
                              (snd (fetchStockFromYahoo example_yahoo ''D'' 2)))) < 50"
    by simp
  note rc = skipped_symbol [OF hc pre, of "([], 0)" "[''B'']"]
  note rd = skipped_symbol [OF hd pre, of "([], 0)" "[''B'']"]
  from rc rd c d show ?thesis
    by (simp add: example_run_A example_run_B example_C example_D del: loop_body.simps)
qed

section \<open>The table\<close>

lemma header_line:
  "join [comma] headers
   = ''Symbol,Name,Exchange,Date,Open,High,Low,Close,Volume,50_EMA,Low_vs_EMA,Close_vs_EMA,Qualifies''"
  by (simp add: headers_def comma_def)

lemma split_on_line:
  "c \<notin> set x \<Longrightarrow> split_on c x = [x]"
  by (induction x) auto

lemma split_on_first_line:
  "c \<notin> set x \<Longrightarrow> split_on c (x @ c # rest) = x # split_on c rest"
  by (induction x) auto

lemma split_on_join:
  assumes "\<forall>r\<in>set rows. c \<notin> set r" and "rows \<noteq> []"
  shows "split_on c (join [c] rows) = rows"
  using assms
proof (induction rows)
  case Nil
  then show ?case by simp
next
  case (Cons x rows)
  show ?case
  proof (cases rows)
    case Nil
    with Cons.prems show ?thesis by (simp add: split_on_line)
  next
    case (Cons y ys)
    with Cons.IH Cons.prems show ?thesis by (simp add: split_on_first_line)
  qed
qed

text \<open>The field scanner on a field that holds no separator, and on a quoted field.\<close>

lemma separators_differ [simp]:
  "comma \<noteq> dquote" "dquote \<noteq> comma" "comma \<noteq> newline" "newline \<noteq> comma"
  "dquote \<noteq> newline" "newline \<noteq> dquote"
  by (simp_all add: comma_def dquote_def newline_def)

lemma scan_unquoted_more:
  "comma \<notin> set x \<Longrightarrow>
   scan_fields Unquoted acc (x @ comma # rest)
   = map_option (Cons (acc @ x)) (scan_fields FieldStart [] rest)"
  by (induction x arbitrary: acc) auto

lemma scan_unquoted_last:
  "comma \<notin> set x \<Longrightarrow> scan_fields Unquoted acc x = Some [acc @ x]"
  by (induction x arbitrary: acc) auto

lemma scan_plain_more:
  assumes "comma \<notin> set x" and "dquote \<notin> set x"
  shows "scan_fields FieldStart acc (x @ comma # rest)
         = map_option (Cons x) (scan_fields FieldStart [] rest)"
proof (cases x)
  case Nil
  then show ?thesis by simp
next
  case (Cons c cs)
  with assms show ?thesis by (auto simp add: scan_unquoted_more)
qed

lemma scan_plain_last:
  assumes "comma \<notin> set x" and "dquote \<notin> set x"
  shows "scan_fields FieldStart acc x = Some [x]"
proof (cases x)
  case Nil
  then show ?thesis by simp
next
  case (Cons c cs)
  with assms show ?thesis by (auto simp add: scan_unquoted_last)
qed

lemma scan_quoted_body:
  "dquote \<notin> set x \<Longrightarrow>
   scan_fields Quoted acc (x @ dquote # comma # rest)
   = map_option (Cons (acc @ x)) (scan_fields FieldStart [] rest)"
  by (induction x arbitrary: acc) auto

lemma scan_quoted_more:
  "dquote \<notin> set x \<Longrightarrow>
   scan_fields FieldStart acc (dquote # x @ dquote # comma # rest)
   = map_option (Cons x) (scan_fields FieldStart [] rest)"
  by (simp add: scan_quoted_body)

lemma scan_plain_fields:
  assumes "\<forall>f\<in>set fs. comma \<notin> set f \<and> dquote \<notin> set f" and "fs \<noteq> []"
  shows "scan_fields FieldStart acc (join [comma] fs) = Some fs"
  using assms
proof (induction fs arbitrary: acc)
  case Nil
  then show ?case by simp
next
  case (Cons f fs)
  show ?case
  proof (cases fs)
    case Nil
    with Cons.prems show ?thesis by (simp add: scan_plain_last)
  next
    case (Cons g gs)
    with Cons.IH [of "[]"] Cons.prems show ?thesis by (simp add: scan_plain_more)
  qed
qed

lemma plain_simps:
  "plain s \<Longrightarrow> comma \<notin> set s" "plain s \<Longrightarrow> dquote \<notin> set s" "plain s \<Longrightarrow> newline \<notin> set s"
  "quotable s \<Longrightarrow> dquote \<notin> set s" "quotable s \<Longrightarrow> newline \<notin> set s"
  by (simp_all add: plain_def quotable_def)

lemma plain_labels [simp]:
  "plain ''Below''" "plain ''Above''" "plain ''YES''" "plain ''NO''"
  by (simp_all add: plain_def comma_def dquote_def newline_def)

text \<open>One row is read back as its values, under the conditions on its text fields.\<close>

lemma parse_csv_row:
  assumes F: "\<forall>x. plain (toFixed2 F x)" "\<forall>x. plain (toString F x)"
    and s: "plain (symbol stock)" "quotable (name stock)" "plain (exchange stock)"
      "plain (date stock)"
  shows "parse_row (join [comma] (csv_row F stock)) = Some (row_values F stock)"
proof -
  let ?rest = "drop 2 (csv_row F stock)"
  have rest: "\<forall>f\<in>set ?rest. comma \<notin> set f \<and> dquote \<notin> set f"
    using F s by (simp add: csv_row_def plain_simps)
  have ne: "?rest \<noteq> []" by (simp add: csv_row_def)
  have row: "csv_row F stock = symbol stock # ([dquote] @ name stock @ [dquote]) # ?rest"
    by (simp add: csv_row_def)
  have "join [comma] (csv_row F stock)
        = symbol stock @ comma # dquote # name stock @ dquote # comma # join [comma] ?rest"
    by (simp add: csv_row_def)
  then have "scan_fields FieldStart [] (join [comma] (csv_row F stock))
        = Some (symbol stock # name stock # ?rest)"
    using s by (simp add: scan_plain_more scan_quoted_body scan_plain_fields [OF rest ne]
        plain_simps)
  moreover have "symbol stock # name stock # ?rest = row_values F stock"
    by (simp add: row_values_def csv_row_def)
  moreover have "length (row_values F stock) = length headers"
    by (simp add: row_values_def csv_row_def headers_def)
  ultimately show ?thesis by (simp add: parse_row_def)
qed

lemma csv_row_no_newline:
  assumes F: "\<forall>x. plain (toFixed2 F x)" "\<forall>x. plain (toString F x)"
    and s: "plain (symbol stock)" "quotable (name stock)" "plain (exchange stock)"
      "plain (date stock)"
  shows "newline \<notin> set (join [comma] (csv_row F stock))"
  using F s
  by (simp add: csv_row_def plain_simps)

lemma parse_rows_map:
  assumes "\<forall>stock\<in>set stks. parse_row (join [comma] (csv_row F stock)) = Some (row_values F stock)"
  shows "parse_rows (map (\<lambda>stock. join [comma] (csv_row F stock)) stks)
         = Some (map (row_values F) stks)"
  using assms by (induction stks) simp_all

lemma plain_append [simp]: "plain (a @ b) = (plain a \<and> plain b)"
  by (auto simp add: plain_def)

lemma digit_plain:
  assumes "d < 10"
  shows "plain [digit d]"
proof -
  from assms have "digit d \<in> set ''0123456789''"
    unfolding digit_def by (intro nth_mem) simp
  then show ?thesis by (auto simp add: plain_def comma_def dquote_def newline_def)
qed

lemma show_nat_plain: "plain (show_nat n)"
proof (induction n rule: show_nat.induct)
  case (1 n)
  show ?case
  proof (cases "n < 10")
    case True
    then show ?thesis
      using digit_plain [of n] by (subst show_nat.simps) simp
  next
    case False
    have "n mod 10 < 10" by simp
    from digit_plain [OF this] "1.IH" [OF False] False show ?thesis
      by (subst show_nat.simps) simp
  qed
qed

lemma show_fixed2_plain: "plain (show_fixed2 r)"
proof -
  have a: "plain ([digit (n mod 100 div 10)] @ [digit (n mod 10)])" for n
    using digit_plain [of "n mod 100 div 10"] digit_plain [of "n mod 10"]
    by (simp del: append.simps)
  have b: "plain ''-''" "plain ''.''" "plain []"
    by (simp_all add: plain_def comma_def dquote_def newline_def)
  have "plain ((if r < 0 then ''-'' else []) @ show_nat (n div 100) @ ''.''
         @ ([digit (n mod 100 div 10)] @ [digit (n mod 10)]))" for n
    using a [of n] b by (simp add: show_nat_plain del: append.simps)
  then show ?thesis
    unfolding show_fixed2_def Let_def by simp
qed

lemma example_format_plain:
  "\<forall>x. plain (toFixed2 example_format x)" "\<forall>x. plain (toString example_format x)"
proof -
  have w: "plain ''Infinity''" "plain ''-Infinity''" "plain ''NaN''" "plain ''-''" "plain []"
    by (simp_all add: plain_def comma_def dquote_def newline_def)
  show "\<forall>x. plain (toFixed2 example_format x)"
    using w by (simp add: example_format_def show_fixed2_plain split: jsnum.splits)
  show "\<forall>x. plain (toString example_format x)"
    using w by (simp add: example_format_def show_nat_plain split: jsnum.splits)
qed

lemmas example_csv_defs = csv_rows_def csv_row_def example_stock_def example_format_def
  headers_def comma_def newline_def dquote_def show_fixed2_def show_nat.simps digit_def js_gt_def

lemma generateCSV_text:
  "generateCSV F stks
   = join [newline] (join [comma] headers
       # map (\<lambda>stock. join [comma] (csv_row F stock)) (filter qualifies stks))"
  by (simp add: generateCSV_def csv_rows_eq)

lemma header_no_newline: "newline \<notin> set (join [comma] headers)"
  by (simp add: header_line) (simp add: newline_def)

lemma first_line_is_header:
  "hd (split_on newline (generateCSV F stks)) = join [comma] headers"
proof (cases "filter qualifies stks")
  case Nil
  then show ?thesis
    by (simp add: generateCSV_text split_on_line [OF header_no_newline])
next
  case (Cons a as)
  then show ?thesis
    by (simp add: generateCSV_text split_on_first_line [OF header_no_newline])
qed



text \<open>
  Claim C6, as amended. For every record list the first line of the serialised text is
  the header line, and the text is the header line alone when no record qualifies. For
  every record list in which the row of no qualifying record holds a line break, the
  lines of the text are the header line followed by exactly one line for each qualifying
  record, in order, and none for a record that does not qualify.
\<close>

theorem table_rows:
  "hd (split_on newline (generateCSV F stks)) = join [comma] headers
   \<and> (filter qualifies stks = [] \<longrightarrow> generateCSV F stks = join [comma] headers)
   \<and> ((\<forall>stock\<in>set stks. qualifies stock \<longrightarrow> newline \<notin> set (join [comma] (csv_row F stock)))
        \<longrightarrow> split_on newline (generateCSV F stks)
              = join [comma] headers
                # map (\<lambda>stock. join [comma] (csv_row F stock)) (filter qualifies stks)
            \<and> length (split_on newline (generateCSV F stks))
              = 1 + length (filter qualifies stks))"
proof -
  have "split_on newline (generateCSV F stks)
        = join [comma] headers
          # map (\<lambda>stock. join [comma] (csv_row F stock)) (filter qualifies stks)"
    if "\<forall>stock\<in>set stks. qualifies stock \<longrightarrow> newline \<notin> set (join [comma] (csv_row F stock))"
    unfolding generateCSV_text
    by (rule split_on_join) (use that header_no_newline in auto)
  then show ?thesis
    by (simp add: first_line_is_header) (simp add: generateCSV_text)
qed

theorem table_rows_witness:
  "filter qualifies [(example_stock ''B'' ''Example Ltd'')\<lparr>qualifies := False\<rparr>] = []
   \<and> generateCSV example_format [(example_stock ''B'' ''Example Ltd'')\<lparr>qualifies := False\<rparr>]
       = ''Symbol,Name,Exchange,Date,Open,High,Low,Close,Volume,50_EMA,Low_vs_EMA,Close_vs_EMA,Qualifies''
   \<and> newline \<notin> set (join [comma] (csv_row example_format (example_stock ''A'' ''Example Ltd'')))
   \<and> split_on newline (generateCSV example_format
         [example_stock ''A'' ''Example Ltd'',
          (example_stock ''B'' ''Example Ltd'')\<lparr>qualifies := False\<rparr>])
       = [''Symbol,Name,Exchange,Date,Open,High,Low,Close,Volume,50_EMA,Low_vs_EMA,Close_vs_EMA,Qualifies'',
          ''A,'' @ [dquote] @ ''Example Ltd'' @ [dquote]
            @ '',NSE,2025-09-10,9.00,11.00,9.00,11.00,1000,10.00,Below,Above,YES'']"
proof -
  let ?A = "example_stock ''A'' ''Example Ltd''"
  let ?N = "(example_stock ''B'' ''Example Ltd'')\<lparr>qualifies := False\<rparr>"
  have n: "filter qualifies [?N] = []" by (simp add: example_stock_def)
  have a: "newline \<notin> set (join [comma] (csv_row example_format ?A))"
    by (simp add: example_csv_defs)
  then have nl: "\<forall>stock\<in>set [?A, ?N]. qualifies stock \<longrightarrow>
              newline \<notin> set (join [comma] (csv_row example_format stock))"
    by (simp add: example_stock_def)
  from table_rows [of example_format "[?N]"] n
  have 1: "generateCSV example_format [?N] = join [comma] headers" by blast
  from table_rows [of example_format "[?A, ?N]"] nl
  have 2: "split_on newline (generateCSV example_format [?A, ?N])
           = join [comma] headers
             # map (\<lambda>stock. join [comma] (csv_row example_format stock))
                 (filter qualifies [?A, ?N])"
    by blast
  have 3: "split_on newline (generateCSV example_format [?A, ?N])
       = [''Symbol,Name,Exchange,Date,Open,High,Low,Close,Volume,50_EMA,Low_vs_EMA,Close_vs_EMA,Qualifies'',
          ''A,'' @ [dquote] @ ''Example Ltd'' @ [dquote]
            @ '',NSE,2025-09-10,9.00,11.00,9.00,11.00,1000,10.00,Below,Above,YES'']"
    unfolding 2 by (simp add: example_csv_defs)
  have 4: "generateCSV example_format [?N]
       = ''Symbol,Name,Exchange,Date,Open,High,Low,Close,Volume,50_EMA,Low_vs_EMA,Close_vs_EMA,Qualifies''"
    unfolding 1 by (simp add: header_line)
  from n a 3 4 show ?thesis by blast
qed

text \<open>
  The claim as stated is for every record list. Nothing is escaped, so a line break in
  a name (inside its quotes) or in a symbol splits the row of one qualifying record over
  two lines of the text.
\<close>

theorem table_rows_counterexample:
  "length (filter qualifies [example_stock ''A'' (''Example'' @ [newline] @ ''Ltd'')]) = 1
   \<and> length (split_on newline
        (generateCSV example_format [example_stock ''A'' (''Example'' @ [newline] @ ''Ltd'')])) = 3
   \<and> length (filter qualifies [example_stock (''A'' @ [newline] @ ''B'') ''Example Ltd'']) = 1
   \<and> length (split_on newline
        (generateCSV example_format [example_stock (''A'' @ [newline] @ ''B'') ''Example Ltd''])) = 3"
  by (simp add: generateCSV_def example_csv_defs)

section \<open>The order of the report\<close>



section \<open>The round trip\<close>

text \<open>
  Claim C7, as amended. The serialiser quotes the name and no other field, and escapes
  nothing. For a number format whose output holds no separator, quote or line break, and
  a report whose qualifying records have a symbol, an exchange and a date free of
  separators, quotes and line breaks and a name free of quotes and line breaks (it may
  hold separators), reading the serialised table back yields, for each qualifying record
  in order, its symbol, name, exchange and date, its numbers as \<open>toFixed(2)\<close> rounds
  them (the volume as \<open>toString()\<close> prints it), and its two labels.
\<close>

theorem table_round_trip:
  assumes "\<forall>x. plain (toFixed2 F x)" and "\<forall>x. plain (toString F x)"
    and "\<forall>stock\<in>set stks. qualifies stock \<longrightarrow>
           plain (symbol stock) \<and> quotable (name stock)
           \<and> plain (exchange stock) \<and> plain (date stock)"
  shows "parse_table (generateCSV F stks) = Some (map (row_values F) (filter qualifies stks))
         \<and> (\<forall>stock. row_values F stock
               = [symbol stock, name stock, exchange stock, date stock,
                  toFixed2 F (open_price stock), toFixed2 F (high stock),
                  toFixed2 F (low stock), toFixed2 F (close stock),
                  toString F (volume stock), toFixed2 F (ema50 stock),
                  (if js_lt (low stock) (ema50 stock) then ''Below'' else ''Above''),
                  (if js_gt (close stock) (ema50 stock) then ''Above'' else ''Below''),
                  (if qualifies stock then ''YES'' else ''NO'')])"
proof -
  let ?q = "filter qualifies stks"
  have rows: "\<forall>stock\<in>set ?q. parse_row (join [comma] (csv_row F stock)) = Some (row_values F stock)"
  proof
    fix stock assume "stock \<in> set ?q"
    with assms(3) have "plain (symbol stock)" "quotable (name stock)"
      "plain (exchange stock)" "plain (date stock)" by auto
    with assms(1,2) show "parse_row (join [comma] (csv_row F stock)) = Some (row_values F stock)"
      by (rule parse_csv_row)
  qed
  have h: "newline \<notin> set (join [comma] headers)"
    by (simp add: header_line) (simp add: newline_def)
  have "\<forall>stock\<in>set ?q. newline \<notin> set (join [comma] (csv_row F stock))"
  proof
    fix stock assume "stock \<in> set ?q"
    with assms(3) have "plain (symbol stock)" "quotable (name stock)"
      "plain (exchange stock)" "plain (date stock)" by auto
    with assms(1,2) show "newline \<notin> set (join [comma] (csv_row F stock))"
      by (rule csv_row_no_newline)
  qed
  with h have nl: "\<forall>r\<in>set (csv_rows F stks). newline \<notin> set r"
    by (auto simp add: csv_rows_eq)
  have "split_on newline (generateCSV F stks) = csv_rows F stks"
    unfolding generateCSV_def by (rule split_on_join) (use nl in \<open>simp_all add: csv_rows_eq\<close>)
  then have "parse_table (generateCSV F stks) = Some (map (row_values F) ?q)"
    using parse_rows_map [OF rows] by (simp add: parse_table_def csv_rows_eq)
  then show ?thesis by (simp add: row_values_def csv_row_def)
qed

theorem table_round_trip_witness:
  "(\<forall>x. plain (toFixed2 example_format x)) \<and> (\<forall>x. plain (toString example_format x))
   \<and> plain (symbol (example_stock ''A'' ''Example, Ltd''))
   \<and> quotable (name (example_stock ''A'' ''Example, Ltd''))
   \<and> plain (exchange (example_stock ''A'' ''Example, Ltd''))
   \<and> plain (date (example_stock ''A'' ''Example, Ltd''))
   \<and> parse_table (generateCSV example_format
         [example_stock ''A'' ''Example, Ltd'',
          (example_stock ''B'' ''Example Ltd'')\<lparr>qualifies := False\<rparr>])
       = Some [[''A'', ''Example, Ltd'', ''NSE'', ''2025-09-10'', ''9.00'', ''11.00'', ''9.00'',
                ''11.00'', ''1000'', ''10.00'', ''Below'', ''Above'', ''YES'']]"
proof -
  let ?A = "example_stock ''A'' ''Example, Ltd''"
  let ?N = "(example_stock ''B'' ''Example Ltd'')\<lparr>qualifies := False\<rparr>"
  have p: "plain (symbol ?A)" "quotable (name ?A)" "plain (exchange ?A)" "plain (date ?A)"
    by (simp_all add: example_stock_def plain_def quotable_def comma_def dquote_def newline_def)
  then have h: "\<forall>stock\<in>set [?A, ?N]. qualifies stock \<longrightarrow>
           plain (symbol stock) \<and> quotable (name stock)
           \<and> plain (exchange stock) \<and> plain (date stock)"
    by (simp add: example_stock_def)
  from table_round_trip [OF example_format_plain h]
  have "parse_table (generateCSV example_format [?A, ?N])
        = Some (map (row_values example_format) (filter qualifies [?A, ?N]))"
    by blast
  then have "parse_table (generateCSV example_format [?A, ?N])
       = Some [[''A'', ''Example, Ltd'', ''NSE'', ''2025-09-10'', ''9.00'', ''11.00'', ''9.00'',
                ''11.00'', ''1000'', ''10.00'', ''Below'', ''Above'', ''YES'']]"
    by (simp add: row_values_def example_csv_defs)
  with p example_format_plain show ?thesis by blast
qed

text \<open>
  The claim as stated has every text field that holds a separator quoted. The symbol
  is written as it is: a symbol \<open>A,B\<close> makes a row of fourteen cells, which does not read
  back. Nor can any reader do better on all inputs: two reports with different symbols
  have the same serialised text.
\<close>

theorem table_round_trip_counterexample:
  "hd (csv_row example_format (example_stock ''A,B'' ''Example Ltd'')) = ''A,B''
   \<and> parse_table (generateCSV example_format [example_stock ''A,B'' ''Example Ltd''])
       \<noteq> Some [row_values example_format (example_stock ''A,B'' ''Example Ltd'')]
   \<and> generateCSV example_format [example_stock (''A,'' @ [dquote] @ ''B'' @ [dquote]) ''C'']
       = generateCSV example_format [example_stock ''A'' (''B'' @ [dquote, comma, dquote] @ ''C'')]
   \<and> symbol (example_stock (''A,'' @ [dquote] @ ''B'' @ [dquote]) ''C'')
       \<noteq> symbol (example_stock ''A'' (''B'' @ [dquote, comma, dquote] @ ''C''))"
proof -
  have "parse_table (generateCSV example_format [example_stock ''A,B'' ''Example Ltd'']) = None"
    by (simp add: generateCSV_def example_csv_defs parse_table_def parse_row_def)
  moreover have "generateCSV example_format [example_stock (''A,'' @ [dquote] @ ''B'' @ [dquote]) ''C'']
       = generateCSV example_format [example_stock ''A'' (''B'' @ [dquote, comma, dquote] @ ''C'')]"
    by (simp add: generateCSV_def csv_rows_def csv_row_def example_stock_def comma_def)
  ultimately show ?thesis
    by (simp add: csv_row_def example_stock_def)
qed

end
